theory Spec2Isabelle
  imports Complex_Main "HOL-Library.Word" "HOL-Library.Sublist" "HOL-Library.Multiset"
    "HOL-Library.List_Lexorder" "HOL-Library.Log_Nat"
begin

section \<open>Strings and numbers of the source language\<close>

text \<open>
  A string of the source language is a sequence of 16-bit code units, and \<open>length\<close> counts
  code units, as \<^verbatim>\<open>.length\<close> does. \<open>js\<close> turns an ASCII literal into such a string.
\<close>

type_synonym code_unit = "16 word"
type_synonym jsstring = "code_unit list"

definition js :: "string \<Rightarrow> jsstring" where
  "js s = map (\<lambda>c. of_nat (of_char c)) s"

text \<open>
  A number of the source language is an IEEE 754 binary64 value. A finite one is a
  rational, and it is modelled by that rational. Counts, lengths, latencies in
  milliseconds and the operands of a challenge are integers, on which the arithmetic of
  the source is exact. \<open>Math.round\<close> gives the integer nearest to its argument, the
  larger one for a tie, which is \<open>\<lfloor>x + 1/2\<rfloor>\<close>.
\<close>

definition Math_round :: "rat \<Rightarrow> int" where
  "Math_round x = \<lfloor>x + 1 / 2\<rfloor>"

text \<open>
  A division or a multiplication of the source gives the binary64 value nearest to the
  exact result, a tie going to the value whose last bit is 0. \<open>fl x\<close> is that value for
  the exact result \<open>x\<close>: with \<open>binade x\<close> the exponent \<open>e\<close> such that
  \<open>2^e \<le> |x| < 2^(e+1)\<close>, the binary64 values from \<open>2^e\<close> to \<open>2^(e+1)\<close> are the
  multiples of \<open>2^(e-52)\<close>, or of \<open>2^(-1074)\<close> for a subnormal \<open>x\<close>, and \<open>x\<close> is
  rounded to the nearest of them. This is the result of the operation as long as it is
  below \<open>2^1024\<close> in magnitude; the results here are at most 10000. \<open>is_binary64\<close> holds
  of the rationals that are finite binary64 values. \<open>binade\<close> is computed from the
  numbers of bits of the numerator and of the denominator, whose difference is the
  exponent or one more than it.
\<close>

definition binade :: "rat \<Rightarrow> int" where
  "binade x =
     (let (p, q) = quotient_of \<bar>x\<bar>;
          e0 = bitlen p - bitlen q
      in if 2 powi e0 \<le> \<bar>x\<bar> then e0 else e0 - 1)"

definition round_even :: "rat \<Rightarrow> int" where
  "round_even y =
     (let f = \<lfloor>y\<rfloor>; d = y - of_int f
      in if d < 1 / 2 then f else if 1 / 2 < d then f + 1 else if even f then f else f + 1)"

definition fl :: "rat \<Rightarrow> rat" where
  "fl x =
     (if x = 0 then 0
      else let E = max (binade x - 52) (- 1074)
           in of_int (round_even (x / 2 powi E)) * 2 powi E)"

definition is_binary64 :: "rat \<Rightarrow> bool" where
  "is_binary64 x \<longleftrightarrow> fl x = x \<and> \<bar>x\<bar> < 2 ^ 1024"


section \<open>Check results (lib/types, as used by the status route and the check runner)\<close>

text \<open>
  Modelled from the spec: the types \<open>HealthStatus\<close>, \<open>CheckResult\<close> and
  \<open>ProviderConfig\<close> are declared in \<open>lib/types\<close>, which is not among the sources. A
  check result has the fields that the spec lists, as the runner and the aggregator use
  them. The status has the five values of the spec, which are the five that the database
  constraint on \<open>check_history.status\<close> lists, and \<open>maintenance\<close>, which the status
  route assigns to a field of type \<open>HealthStatus\<close>.
\<close>

datatype HealthStatus =
  Operational | Degraded | Failed | ValidationFailed | Error | Maintenance

record CheckResult =
  rid :: jsstring
  name :: jsstring
  rtype :: jsstring
  endpoint :: jsstring
  model :: jsstring
  status :: HealthStatus
  latencyMs :: "int option"
  pingLatencyMs :: "int option"
  checkedAt :: jsstring
  message :: jsstring


section \<open>Statistics aggregator (app/api/v1/status/route.ts)\<close>

record ProviderStatistics =
  totalChecks :: nat
  operationalCount :: nat
  degradedCount :: nat
  failedCount :: nat
  validationFailedCount :: nat
  successRate :: rat
  avgLatencyMs :: "int option"
  minLatencyMs :: "int option"
  maxLatencyMs :: "int option"

text \<open>The local variables of \<open>computeStatistics\<close> that its loop updates.\<close>

record stat_vars =
  v_operational :: nat
  v_degraded :: nat
  v_failed :: nat
  v_validationFailed :: nat
  v_latencies :: "int list"

definition stat_init :: stat_vars where
  "stat_init = \<lparr>v_operational = 0, v_degraded = 0, v_failed = 0,
     v_validationFailed = 0, v_latencies = []\<rparr>"

text \<open>One iteration of the loop body: the \<open>switch\<close> on the status, then the latency.\<close>

definition stat_switch :: "HealthStatus \<Rightarrow> stat_vars \<Rightarrow> stat_vars" where
  "stat_switch st v =
     (case st of
        Operational \<Rightarrow> v\<lparr>v_operational := v_operational v + 1\<rparr>
      | Degraded \<Rightarrow> v\<lparr>v_degraded := v_degraded v + 1\<rparr>
      | Failed \<Rightarrow> v\<lparr>v_failed := v_failed v + 1\<rparr>
      | ValidationFailed \<Rightarrow> v\<lparr>v_validationFailed := v_validationFailed v + 1\<rparr>
      | _ \<Rightarrow> v)"

definition stat_step :: "'a CheckResult_scheme \<Rightarrow> stat_vars \<Rightarrow> stat_vars" where
  "stat_step item v =
     (let v' = stat_switch (status item) v in
      case latencyMs item of
        None \<Rightarrow> v'
      | Some l \<Rightarrow> v'\<lparr>v_latencies := v_latencies v' @ [l]\<rparr>)"

fun stat_loop :: "'a CheckResult_scheme list \<Rightarrow> stat_vars \<Rightarrow> stat_vars" where
  "stat_loop [] v = v"
| "stat_loop (item # items) v = stat_loop items (stat_step item v)"

text \<open>
  \<open>computeStatistics\<close>. The success rate is followed through the binary64 roundings of
  its quotient and of its two products with 100. The mean latency is the quotient of the
  sum and the number of the latencies, as it is, given to \<open>Math.round\<close>.
\<close>

definition computeStatistics :: "'a CheckResult_scheme list \<Rightarrow> ProviderStatistics" where
  "computeStatistics items =
     (if length items = 0 then
        \<lparr>totalChecks = 0, operationalCount = 0, degradedCount = 0, failedCount = 0,
         validationFailedCount = 0, successRate = 0,
         avgLatencyMs = None, minLatencyMs = None, maxLatencyMs = None\<rparr>
      else
        let v = stat_loop items stat_init;
            successCount = v_operational v + v_degraded v;
            rate = (if length items > 0
                    then fl (fl (of_nat successCount / of_nat (length items)) * 100) else 0);
            (avg, mn, mx) =
              (case v_latencies v of
                 [] \<Rightarrow> (None, None, None)
               | l # ls \<Rightarrow>
                   (Some (Math_round (of_int (foldl (+) 0 (l # ls)) / of_nat (length (l # ls)))),
                    Some (foldl min l ls),
                    Some (foldl max l ls)))
        in \<lparr>totalChecks = length items,
            operationalCount = v_operational v,
            degradedCount = v_degraded v,
            failedCount = v_failed v,
            validationFailedCount = v_validationFailed v,
            successRate = fl (of_int (Math_round (fl (rate * 100))) / 100),
            avgLatencyMs = avg, minLatencyMs = mn, maxLatencyMs = mx\<rparr>)"

text \<open>
  Reference notions for the aggregator: the number of items with a given status, and the
  latencies that are present, in the order of the items; a number rounded to two
  decimals, a tie upwards, and whether it is a tie, halfway between two neighbouring
  numbers of two decimals.
\<close>

definition round_2dp :: "rat \<Rightarrow> rat" where
  "round_2dp r = of_int (Math_round (r * 100)) / 100"

definition tie_2dp :: "rat \<Rightarrow> bool" where
  "tie_2dp r \<longleftrightarrow> r * 100 - of_int \<lfloor>r * 100\<rfloor> = 1 / 2"

definition count_status :: "HealthStatus \<Rightarrow> 'a CheckResult_scheme list \<Rightarrow> nat" where
  "count_status st items = length (filter (\<lambda>r. status r = st) items)"

definition known_latencies :: "'a CheckResult_scheme list \<Rightarrow> int list" where
  "known_latencies items = concat (map (\<lambda>r. case latencyMs r of None \<Rightarrow> [] | Some l \<Rightarrow> [l]) items)"

text \<open>
  A check result with the given status and latency, used in concrete instances, and a
  history of 160 checks of which 23 are operational and 137 failed.
\<close>

definition sample :: "HealthStatus \<Rightarrow> int option \<Rightarrow> CheckResult" where
  "sample st l = \<lparr>rid = [], name = [], rtype = [], endpoint = [], model = [], status = st,
     latencyMs = l, pingLatencyMs = None, checkedAt = [], message = []\<rparr>"

definition tie_items :: "CheckResult list" where
  "tie_items = replicate 23 (sample Operational (Some 120)) @ replicate 137 (sample Failed None)"


section \<open>Transient-failure classifier (provider check entry point)\<close>

text \<open>
  The regular expressions of the sources are matched without the unicode flag, so the
  engine compares code units after \<open>Canonicalize\<close>, which maps a code unit to its upper
  case. A code unit outside ASCII never canonicalizes to an ASCII one; since every
  pattern of the sources is ASCII, only the folding of \<open>a\<close> to \<open>z\<close> is written out, and
  a code unit outside ASCII is left as it is.
\<close>

definition Canonicalize :: "code_unit \<Rightarrow> code_unit" where
  "Canonicalize ch = (if 0x61 \<le> ch \<and> ch \<le> 0x7A then ch - 0x20 else ch)"

text \<open>
  Matching a literal at the start of the input gives the rest of the input after the
  match; \<open>match_optional\<close> is a greedy optional single code unit of a class.
\<close>

fun match_literal :: "jsstring \<Rightarrow> jsstring \<Rightarrow> jsstring option" where
  "match_literal [] s = Some s"
| "match_literal (p # ps) [] = None"
| "match_literal (p # ps) (c # cs) =
     (if Canonicalize c = Canonicalize p then match_literal ps cs else None)"

definition match_optional :: "(code_unit \<Rightarrow> bool) \<Rightarrow> jsstring \<Rightarrow> jsstring" where
  "match_optional cls s = (case s of [] \<Rightarrow> [] | c # cs \<Rightarrow> if cls c then cs else s)"

text \<open>The pattern \<^verbatim>\<open>/request was aborted\.?/i\<close>, matched at the start of the input.\<close>

definition REQUEST_ABORTED_PATTERN :: "jsstring \<Rightarrow> jsstring option" where
  "REQUEST_ABORTED_PATTERN s =
     map_option (match_optional (\<lambda>c. c = 0x2E)) (match_literal (js ''request was aborted'') s)"

text \<open>
  \<open>RegExp.prototype.test\<close> for a pattern without the global flag: the pattern is tried at
  every start position, from left to right, the position after the last code unit included.
\<close>

fun regex_test :: "(jsstring \<Rightarrow> jsstring option) \<Rightarrow> jsstring \<Rightarrow> bool" where
  "regex_test pat [] = (pat [] \<noteq> None)"
| "regex_test pat (c # cs) = (if pat (c # cs) \<noteq> None then True else regex_test pat cs)"

definition shouldRetryRequestAborted :: "jsstring option \<Rightarrow> bool" where
  "shouldRetryRequestAborted msg =
     (case msg of
        None \<Rightarrow> False
      | Some m \<Rightarrow> if m = [] then False else regex_test REQUEST_ABORTED_PATTERN m)"

text \<open>
  Reference notions: equality of strings up to the case of ASCII letters, and containing a
  phrase up to case as a contiguous substring.
\<close>

definition ascii_lower :: "code_unit \<Rightarrow> code_unit" where
  "ascii_lower c = (if 0x41 \<le> c \<and> c \<le> 0x5A then c + 0x20 else c)"

definition equal_ignoring_case :: "jsstring \<Rightarrow> jsstring \<Rightarrow> bool" where
  "equal_ignoring_case a b \<longleftrightarrow> map ascii_lower a = map ascii_lower b"

definition contains_ignoring_case :: "jsstring \<Rightarrow> jsstring \<Rightarrow> bool" where
  "contains_ignoring_case m phrase \<longleftrightarrow>
     (\<exists>pre w post. m = pre @ w @ post \<and> equal_ignoring_case w phrase)"


section \<open>Values thrown and logged (lib/utils/error-handler.ts)\<close>

text \<open>
  The error handler receives a value of type \<open>unknown\<close> and inspects it. The values are
  modelled by the cases the handler distinguishes: primitives, arrays, plain objects (their
  own enumerable properties, in enumeration order) and instances of \<open>Error\<close>. An instance
  of \<open>Error\<close> carries its name, its message, its stack if any, the two fields that the
  interface \<open>AIAPICallError\<close> of the source declares and the handler reads, with the types
  declared there (\<open>statusCode?: number\<close>, \<open>responseBody?: string\<close>), and its other own
  enumerable properties. Numbers are integers here.
\<close>

datatype js_value =
    JUndefined
  | JNull
  | JBoolean bool
  | JNumber int
  | JString jsstring
  | JArray "js_value list"
  | JObject "(jsstring \<times> js_value) list"
  | JError jsstring jsstring "jsstring option" "int option" "jsstring option"
      "(jsstring \<times> js_value) list"

text \<open>\<open>String(n)\<close> for an integer: its decimal digits, after a minus sign if negative.\<close>

definition digit_unit :: "nat \<Rightarrow> code_unit" where
  "digit_unit d = of_nat (48 + d)"

fun decimal :: "nat \<Rightarrow> jsstring" where
  "decimal n = (if n < 10 then [digit_unit n] else decimal (n div 10) @ [digit_unit (n mod 10)])"

declare decimal.simps [simp del]

definition String_of_int :: "int \<Rightarrow> jsstring" where
  "String_of_int i = (if i < 0 then 0x2D # decimal (nat (- i)) else decimal (nat i))"

text \<open>Truthiness.\<close>

fun truthy :: "js_value \<Rightarrow> bool" where
  "truthy JUndefined = False"
| "truthy JNull = False"
| "truthy (JBoolean b) = b"
| "truthy (JNumber n) = (n \<noteq> 0)"
| "truthy (JString s) = (s \<noteq> [])"
| "truthy _ = True"

text \<open>
  The conversion to a string that a template literal applies to a value. It can throw:
  the result is \<open>Inr\<close> the string or \<open>Inl\<close> the value thrown. A primitive has its
  string. An object is converted by calling its \<open>toString\<close> method and, if that is not
  callable or does not give a primitive, its \<open>valueOf\<close> method. The values of
  properties are data here (what \<open>JSON.parse\<close> builds), never functions. So for a plain
  object without an own property \<open>toString\<close> the method is the inherited
  \<open>Object.prototype.toString\<close>, which gives \<open>[object Object]\<close>; for one with an own
  property \<open>toString\<close> that property is not callable, and \<open>valueOf\<close> is either an own
  property, not callable either, or the inherited \<open>Object.prototype.valueOf\<close>, which
  returns the object itself and not a primitive: the conversion throws a \<open>TypeError\<close>.
  The same holds of an \<open>Error\<close> instance, whose inherited method is
  \<open>Error.prototype.toString\<close>. An array is converted by \<open>Array.prototype.join\<close>, which
  converts the elements from left to right, \<open>undefined\<close> and \<open>null\<close> to the empty string,
  and puts commas between them; the first element whose conversion throws ends it.
  The decimal digits of \<open>String_of_int\<close> are what the conversion of a number gives for
  an integer of magnitude below \<open>10^21\<close>. The message of the \<open>TypeError\<close> is the one
  that V8 gives; the language fixes only that it is a \<open>TypeError\<close>.
\<close>

definition cannot_convert :: js_value where
  "cannot_convert =
     JError (js ''TypeError'') (js ''Cannot convert object to primitive value'')
       None None None []"

fun ToString :: "js_value \<Rightarrow> js_value + jsstring"
  and Array_join :: "js_value list \<Rightarrow> js_value + jsstring" where
  "ToString JUndefined = Inr (js ''undefined'')"
| "ToString JNull = Inr (js ''null'')"
| "ToString (JBoolean b) = Inr (if b then js ''true'' else js ''false'')"
| "ToString (JNumber n) = Inr (String_of_int n)"
| "ToString (JString s) = Inr s"
| "ToString (JArray xs) = Array_join xs"
| "ToString (JObject ps) =
     (if js ''toString'' \<in> set (map fst ps) then Inl cannot_convert
      else Inr (js ''[object Object]''))"
| "ToString (JError nm msg st sc rb ps) =
     (if js ''toString'' \<in> set (map fst ps) then Inl cannot_convert
      else Inr (if nm = [] then msg else if msg = [] then nm else nm @ js '': '' @ msg))"
| "Array_join [] = Inr []"
| "Array_join [x] = (if x = JUndefined \<or> x = JNull then Inr [] else ToString x)"
| "Array_join (x # y # ys) =
     (case (if x = JUndefined \<or> x = JNull then Inr [] else ToString x) of
        Inl thrown \<Rightarrow> Inl thrown
      | Inr s \<Rightarrow>
          (case Array_join (y # ys) of
             Inl thrown \<Rightarrow> Inl thrown
           | Inr r \<Rightarrow> Inr (s @ 0x2C # r)))"

text \<open>The own enumerable properties of an \<open>Error\<close> instance, typed fields first.\<close>

definition error_own_props ::
  "int option \<Rightarrow> jsstring option \<Rightarrow> (jsstring \<times> js_value) list \<Rightarrow> (jsstring \<times> js_value) list" where
  "error_own_props sc rb ps =
     (case sc of None \<Rightarrow> [] | Some n \<Rightarrow> [(js ''statusCode'', JNumber n)]) @
     (case rb of None \<Rightarrow> [] | Some b \<Rightarrow> [(js ''responseBody'', JString b)]) @ ps"

text \<open>
  Reading a property: \<open>None\<close> is the \<open>TypeError\<close> of reading a property of \<open>null\<close> or
  \<open>undefined\<close>. The keys read by the handler (\<open>message\<close>, \<open>error\<close>) are not properties of
  primitives or arrays.
\<close>

fun get_prop :: "js_value \<Rightarrow> jsstring \<Rightarrow> js_value option" where
  "get_prop JUndefined k = None"
| "get_prop JNull k = None"
| "get_prop (JObject ps) k = Some (case map_of ps k of None \<Rightarrow> JUndefined | Some v \<Rightarrow> v)"
| "get_prop (JError nm msg st sc rb ps) k =
     Some (if k = js ''name'' then JString nm
           else if k = js ''message'' then JString msg
           else if k = js ''stack'' then (case st of None \<Rightarrow> JUndefined | Some s \<Rightarrow> JString s)
           else (case map_of (error_own_props sc rb ps) k of None \<Rightarrow> JUndefined | Some v \<Rightarrow> v))"
| "get_prop _ k = Some JUndefined"

text \<open>
  The body of each \<open>try\<close> block of \<open>extractErrorFromResponseBody\<close>, after \<open>JSON.parse\<close>: it
  returns a value, throws, or falls through.
\<close>

datatype 'a block_exit = Threw | Returned 'a | FellThrough

definition read_data_message :: "js_value \<Rightarrow> js_value block_exit" where
  "read_data_message data =
     (case get_prop data (js ''message'') of
        None \<Rightarrow> Threw
      | Some m \<Rightarrow>
          if truthy m then Returned m
          else (case get_prop data (js ''error'') of
                  None \<Rightarrow> Threw
                | Some e \<Rightarrow>
                    (case get_prop e (js ''message'') of
                       None \<Rightarrow> FellThrough
                     | Some em \<Rightarrow> if truthy em then Returned em else FellThrough)))"

text \<open>\<open>JSON.parse\<close> is a parameter: \<open>None\<close> is its \<open>SyntaxError\<close>.\<close>

definition parse_and_read :: "(jsstring \<Rightarrow> js_value option) \<Rightarrow> jsstring \<Rightarrow> js_value block_exit" where
  "parse_and_read JSON_parse text =
     (case JSON_parse text of None \<Rightarrow> Threw | Some data \<Rightarrow> read_data_message data)"

text \<open>
  The pattern \<^verbatim>\<open>/data:\s*(\{.*\})/\<close>, matched at the start of the input; the result is
  the capture group: from the brace to the last closing brace of the line.
\<close>

definition is_line_terminator :: "code_unit \<Rightarrow> bool" where
  "is_line_terminator c \<longleftrightarrow> c = 0x0A \<or> c = 0x0D \<or> c = 0x2028 \<or> c = 0x2029"

definition is_whitespace :: "code_unit \<Rightarrow> bool" where
  "is_whitespace c \<longleftrightarrow>
     c = 0x09 \<or> c = 0x0B \<or> c = 0x0C \<or> c = 0x20 \<or> c = 0xA0 \<or> c = 0x1680 \<or>
     (0x2000 \<le> c \<and> c \<le> 0x200A) \<or> c = 0x202F \<or> c = 0x205F \<or> c = 0x3000 \<or>
     c = 0xFEFF \<or> is_line_terminator c"

fun strip_prefix :: "jsstring \<Rightarrow> jsstring \<Rightarrow> jsstring option" where
  "strip_prefix [] s = Some s"
| "strip_prefix (p # ps) [] = None"
| "strip_prefix (p # ps) (c # cs) = (if c = p then strip_prefix ps cs else None)"

fun upto_last_brace :: "jsstring \<Rightarrow> jsstring option" where
  "upto_last_brace [] = None"
| "upto_last_brace (c # cs) =
     (case upto_last_brace cs of
        Some r \<Rightarrow> Some (c # r)
      | None \<Rightarrow> if c = 0x7D then Some [c] else None)"

definition sse_data_here :: "jsstring \<Rightarrow> jsstring option" where
  "sse_data_here s =
     (case strip_prefix (js ''data:'') s of
        None \<Rightarrow> None
      | Some r \<Rightarrow>
          (case dropWhile is_whitespace r of
             [] \<Rightarrow> None
           | c # cs \<Rightarrow>
               if c = 0x7B
               then map_option ((#) c) (upto_last_brace (takeWhile (\<lambda>x. \<not> is_line_terminator x) cs))
               else None))"

text \<open>
  \<open>String.prototype.match\<close> for a pattern without the global flag: the first position,
  from the left, where the pattern matches.
\<close>

fun regex_first :: "(jsstring \<Rightarrow> 'a option) \<Rightarrow> jsstring \<Rightarrow> 'a option" where
  "regex_first pat [] = pat []"
| "regex_first pat (c # cs) =
     (case pat (c # cs) of Some m \<Rightarrow> Some m | None \<Rightarrow> regex_first pat cs)"

definition extractErrorFromResponseBody ::
  "(jsstring \<Rightarrow> js_value option) \<Rightarrow> jsstring \<Rightarrow> js_value" where
  "extractErrorFromResponseBody JSON_parse responseBody =
     (let fromSse =
            (case regex_first sse_data_here responseBody of
               None \<Rightarrow> FellThrough
             | Some captured \<Rightarrow> parse_and_read JSON_parse captured)
      in case fromSse of
           Returned v \<Rightarrow> v
         | _ \<Rightarrow>
           (case parse_and_read JSON_parse responseBody of
              Returned v \<Rightarrow> v
            | Threw \<Rightarrow> if length responseBody > 0 then JString (take 100 responseBody) else JNull
            | FellThrough \<Rightarrow> JNull))"

text \<open>
  The message of a thrown value that is not an \<open>Error\<close> and not a string, the test
  whether the status code is truthy, and the template \<^verbatim>\<open>[${statusCode}] \<close>.
  \<open>extracted_message\<close> is the first \<open>if\<close> of \<open>getErrorMessage\<close>: \<open>None\<close> when it
  does not return, and otherwise what the template literal
  \<^verbatim>\<open>`${statusPrefix}${extracted}`\<close> gives, the string or the value that the
  conversion of \<open>extracted\<close> throws. The source declares \<open>extracted\<close> a string, but it is
  whatever \<open>JSON.parse\<close> found under the key \<open>message\<close>. \<open>getErrorMessage\<close> has no
  \<open>try\<close> around the template literal, so what the conversion throws leaves
  \<open>getErrorMessage\<close>.
\<close>

definition unknown_error_text :: jsstring where
  "unknown_error_text = [0x672A, 0x77E5, 0x9519, 0x8BEF]"

definition has_statusCode :: "int option \<Rightarrow> bool" where
  "has_statusCode sc = (case sc of None \<Rightarrow> False | Some n \<Rightarrow> n \<noteq> 0)"

definition bracketed_statusCode :: "int option \<Rightarrow> jsstring" where
  "bracketed_statusCode sc =
     (case sc of None \<Rightarrow> js ''[undefined] '' | Some n \<Rightarrow> js ''['' @ String_of_int n @ js ''] '')"

definition extracted_message ::
  "(jsstring \<Rightarrow> js_value option) \<Rightarrow> int option \<Rightarrow> jsstring option
     \<Rightarrow> (js_value + jsstring) option" where
  "extracted_message JSON_parse sc rb =
     (case rb of
        None \<Rightarrow> None
      | Some responseBody \<Rightarrow>
          if responseBody \<noteq> [] then
            (let extracted = extractErrorFromResponseBody JSON_parse responseBody in
             if truthy extracted then
               (let statusPrefix = (if has_statusCode sc then bracketed_statusCode sc else [])
                in Some (case ToString extracted of
                           Inl thrown \<Rightarrow> Inl thrown
                         | Inr s \<Rightarrow> Inr (statusPrefix @ s)))
             else None)
          else None)"

fun getErrorMessage ::
  "(jsstring \<Rightarrow> js_value option) \<Rightarrow> js_value \<Rightarrow> js_value + jsstring" where
  "getErrorMessage JSON_parse (JError nm msg st sc rb ps) =
     (case extracted_message JSON_parse sc rb of
        Some returned \<Rightarrow> returned
      | None \<Rightarrow> Inr (if has_statusCode sc then bracketed_statusCode sc @ msg else msg))"
| "getErrorMessage JSON_parse (JString s) = Inr s"
| "getErrorMessage JSON_parse _ = Inr unknown_error_text"


text \<open>
  Sanitization of what is logged. The pattern
  \<^verbatim>\<open>/api[_-]?key|secret|token|password|authorization|bearer|credential/i\<close> is a list
  of alternatives, tried in order at a position.
\<close>

definition api_key_here :: "jsstring \<Rightarrow> jsstring option" where
  "api_key_here s =
     (case match_literal (js ''api'') s of
        None \<Rightarrow> None
      | Some r \<Rightarrow>
          (case match_literal (js ''key'') (match_optional (\<lambda>c. c = 0x5F \<or> c = 0x2D) r) of
             Some r' \<Rightarrow> Some r'
           | None \<Rightarrow> match_literal (js ''key'') r))"

fun first_alternative :: "(jsstring \<Rightarrow> jsstring option) list \<Rightarrow> jsstring \<Rightarrow> jsstring option" where
  "first_alternative [] s = None"
| "first_alternative (p # ps) s =
     (case p s of Some r \<Rightarrow> Some r | None \<Rightarrow> first_alternative ps s)"

definition SENSITIVE_PATTERNS :: "jsstring \<Rightarrow> jsstring option" where
  "SENSITIVE_PATTERNS =
     first_alternative
       [api_key_here, match_literal (js ''secret''), match_literal (js ''token''),
        match_literal (js ''password''), match_literal (js ''authorization''),
        match_literal (js ''bearer''), match_literal (js ''credential'')]"

definition sanitizeValue :: "js_value \<Rightarrow> js_value" where
  "sanitizeValue v =
     (case v of
        JString s \<Rightarrow>
          if length s \<le> 8 then JString s
          else JString (take 4 s @ js ''***'' @ drop (length s - 4) s)
      | _ \<Rightarrow> v)"

text \<open>Weights for the termination of \<open>sanitizeError\<close> and its two loops.\<close>

definition props_weight :: "(jsstring \<times> js_value) list \<Rightarrow> nat" where
  "props_weight ps = sum_list (map (\<lambda>p. 3 * size (snd p) + 1) ps)"

definition elements_weight :: "js_value list \<Rightarrow> nat" where
  "elements_weight xs = sum_list (map (\<lambda>x. 3 * size x + 1) xs)"

lemma props_weight_filter: "props_weight (filter P ps) \<le> props_weight ps"
  by (induction ps) (auto simp: props_weight_def)

lemma props_weight_bound: "props_weight ps < 3 * size_list (size_prod (\<lambda>_. 0) size) ps + 1"
  by (induction ps) (auto simp: props_weight_def)

lemma elements_weight_bound: "elements_weight xs < 3 * size_list size xs + 1"
  by (induction xs) (auto simp: elements_weight_def)

lemma props_weight_own: "props_weight (error_own_props sc rb ps) \<le> props_weight ps + 2"
  by (auto simp: props_weight_def error_own_props_def split: option.splits)

text \<open>
  \<open>sanitizeError\<close>, with its loop over the elements of an array and its loop over the own
  enumerable properties of an object. For an \<open>Error\<close> the loop skips the keys \<open>name\<close>,
  \<open>message\<close> and \<open>stack\<close>, which are copied first and unchanged.
\<close>

function (sequential) sanitizeError :: "js_value \<Rightarrow> js_value"
  and sanitize_elements :: "js_value list \<Rightarrow> js_value list"
  and sanitize_props :: "(jsstring \<times> js_value) list \<Rightarrow> (jsstring \<times> js_value) list" where
  "sanitizeError (JArray xs) = JArray (sanitize_elements xs)"
| "sanitizeError (JError nm msg st sc rb ps) =
     JObject
       ([(js ''name'', JString nm), (js ''message'', JString msg)] @
        (case st of None \<Rightarrow> [] | Some s \<Rightarrow> if s \<noteq> [] then [(js ''stack'', JString s)] else []) @
        sanitize_props
          (filter (\<lambda>(k, v). k \<notin> {js ''name'', js ''message'', js ''stack''})
             (error_own_props sc rb ps)))"
| "sanitizeError (JObject ps) = JObject (sanitize_props ps)"
| "sanitizeError v = v"
| "sanitize_elements [] = []"
| "sanitize_elements (x # xs) = sanitizeError x # sanitize_elements xs"
| "sanitize_props [] = []"
| "sanitize_props ((k, v) # ps) =
     (k, if regex_test SENSITIVE_PATTERNS k then sanitizeValue v else sanitizeError v)
       # sanitize_props ps"
  by pat_completeness auto

termination
proof (relation "measure (\<lambda>a. case a of Inl v \<Rightarrow> 3 * size v
           | Inr (Inl xs) \<Rightarrow> elements_weight xs | Inr (Inr ps) \<Rightarrow> props_weight ps)",
       goal_cases)
  case 1
  show ?case by simp
next
  case (2 xs)
  show ?case using elements_weight_bound [of xs] by simp
next
  case (3 nm msg st sc rb ps)
  show ?case
    using props_weight_filter
            [of "\<lambda>(k, v). k \<notin> {js ''name'', js ''message'', js ''stack''}"
                "error_own_props sc rb ps"]
      props_weight_own [of sc rb ps] props_weight_bound [of ps]
    by simp
next
  case (4 ps)
  show ?case using props_weight_bound [of ps] by simp
next
  case (5 x xs)
  show ?case by (simp add: elements_weight_def)
next
  case (6 x xs)
  show ?case by (simp add: elements_weight_def)
next
  case (7 k v ps)
  show ?case by (simp add: props_weight_def)
next
  case (8 k v ps)
  show ?case by (simp add: props_weight_def)
qed

datatype console_event = Warn jsstring | ErrorLine jsstring js_value

definition logError :: "jsstring \<Rightarrow> js_value \<Rightarrow> console_event" where
  "logError context error =
     (let sanitized = sanitizeError error
      in ErrorLine (js ''[check-cx] '' @ context @ js '':'') sanitized)"


section \<open>Single-provider check runner (provider check entry point)\<close>

text \<open>
  Modelled from the spec: a provider configuration (declared in \<open>lib/types\<close>) has the
  identity fields that the runner copies into a result. The vendor credentials and whatever
  else a configuration holds are the extension of the record.
\<close>

record ProviderConfig =
  cfg_id :: jsstring
  cfg_name :: jsstring
  cfg_type :: jsstring
  cfg_endpoint :: jsstring
  cfg_model :: jsstring

text \<open>
  What the runner is given from outside. \<open>checkWithAiSdk\<close> is the provider check, which is
  not part of the sources at hand: its promise resolves with a result or rejects with a
  thrown value, and \<open>checkWithAiSdk ext config k\<close> is how invocation number \<open>k\<close> (from 0) of
  the current run settles. \<open>toISOString_now\<close> is \<^verbatim>\<open>new Date().toISOString()\<close>.
\<close>

datatype settled = Resolved CheckResult | Rejected js_value

record 'c externals =
  checkWithAiSdk :: "'c ProviderConfig_scheme \<Rightarrow> nat \<Rightarrow> settled"
  toISOString_now :: jsstring
  JSON_parse :: "jsstring \<Rightarrow> js_value option"

text \<open>What a run has done so far: the invocations of the check, and the console.\<close>

record run_state =
  invocations :: nat
  console :: "console_event list"

definition MAX_REQUEST_ABORT_RETRIES :: nat where
  "MAX_REQUEST_ABORT_RETRIES = 2"

definition retry_warning :: "'c ProviderConfig_scheme \<Rightarrow> nat \<Rightarrow> console_event" where
  "retry_warning config attempt =
     Warn (js ''[check-cx] '' @ cfg_name config
           @ [0x0020, 0x8BF7, 0x6C42, 0x5F02, 0x5E38, 0xFF08] @ js ''Request was aborted''
           @ [0xFF09, 0xFF0C, 0x6B63, 0x5728, 0x91CD, 0x8BD5, 0x7B2C, 0x0020]
           @ String_of_int (int (attempt + 2)) @ [0x0020, 0x6B21])"

definition failure_context :: "'c ProviderConfig_scheme \<Rightarrow> jsstring" where
  "failure_context config =
     [0x68C0, 0x67E5, 0x0020] @ cfg_name config @ js '' ('' @ cfg_type config @ js '')''
       @ [0x0020, 0x5931, 0x8D25]"

definition unexpected_exit :: js_value where
  "unexpected_exit = JError (js ''Error'') (js ''Unexpected retry loop exit'') None None None []"

text \<open>
  The loop of \<open>checkWithRetry\<close>, from the given value of \<open>attempt\<close>. The result is the
  settlement of the promise that \<open>checkWithRetry\<close> returns: \<open>Inr\<close> the result that an
  iteration returns, or \<open>Inl\<close> the value with which the promise rejects. That is either
  what \<open>getErrorMessage\<close> throws, since its call is in the \<open>catch\<close> block and no handler
  encloses it, or the \<open>Error\<close> of the \<open>throw\<close> after the loop.
\<close>

function checkWithRetry_from ::
  "'c externals \<Rightarrow> 'c ProviderConfig_scheme \<Rightarrow> nat \<Rightarrow> run_state
     \<Rightarrow> (js_value + CheckResult) \<times> run_state" where
  "checkWithRetry_from ext config attempt st =
     (if attempt \<le> MAX_REQUEST_ABORT_RETRIES then
        (let st1 = st\<lparr>invocations := invocations st + 1\<rparr> in
         case checkWithAiSdk ext config (invocations st) of
           Resolved result \<Rightarrow>
             if status result = Failed
                \<and> shouldRetryRequestAborted (Some (message result))
                \<and> attempt < MAX_REQUEST_ABORT_RETRIES
             then checkWithRetry_from ext config (attempt + 1)
                    (st1\<lparr>console := console st1 @ [retry_warning config attempt]\<rparr>)
             else (Inr result, st1)
         | Rejected error \<Rightarrow>
             (case getErrorMessage (JSON_parse ext) error of
                Inl thrown \<Rightarrow> (Inl thrown, st1)
              | Inr msg \<Rightarrow>
                  if shouldRetryRequestAborted (Some msg) \<and> attempt < MAX_REQUEST_ABORT_RETRIES
                  then checkWithRetry_from ext config (attempt + 1)
                         (st1\<lparr>console := console st1 @ [retry_warning config attempt]\<rparr>)
                  else (Inr \<lparr>rid = cfg_id config, name = cfg_name config,
                             rtype = cfg_type config, endpoint = cfg_endpoint config,
                             model = cfg_model config, status = Error, latencyMs = None,
                             pingLatencyMs = None, checkedAt = toISOString_now ext,
                             message = msg\<rparr>,
                        st1\<lparr>console := console st1
                                @ [logError (failure_context config) error]\<rparr>)))
      else (Inl unexpected_exit, st))"
  by pat_completeness auto

termination
  by (relation "measure (\<lambda>(ext, config, attempt, st). MAX_REQUEST_ABORT_RETRIES + 1 - attempt)")
     auto

declare checkWithRetry_from.simps [simp del]

definition run_start :: run_state where
  "run_start = \<lparr>invocations = 0, console = []\<rparr>"

definition checkWithRetry ::
  "'c externals \<Rightarrow> 'c ProviderConfig_scheme \<Rightarrow> (js_value + CheckResult) \<times> run_state" where
  "checkWithRetry ext config = checkWithRetry_from ext config 0 run_start"

text \<open>
  The result that the runner builds, with the extracted message, when an attempt rejects
  and is not retried, and the state of the run after an attempt that is retried.
\<close>

definition error_result :: "'c externals \<Rightarrow> 'c ProviderConfig_scheme \<Rightarrow> jsstring \<Rightarrow> CheckResult" where
  "error_result ext config msg =
     \<lparr>rid = cfg_id config, name = cfg_name config, rtype = cfg_type config,
      endpoint = cfg_endpoint config, model = cfg_model config,
      status = Error, latencyMs = None, pingLatencyMs = None,
      checkedAt = toISOString_now ext, message = msg\<rparr>"

definition retried :: "'c ProviderConfig_scheme \<Rightarrow> nat \<Rightarrow> run_state \<Rightarrow> run_state" where
  "retried config attempt st =
     st\<lparr>invocations := invocations st + 1,
        console := console st @ [retry_warning config attempt]\<rparr>"

text \<open>
  Concrete instances: a configuration, a provider check that rejects with the same value at
  every invocation, and the error of an aborted request.
\<close>

definition example_config :: ProviderConfig where
  "example_config = \<lparr>cfg_id = js ''p-1'', cfg_name = js ''Alpha'', cfg_type = js ''openai'',
     cfg_endpoint = js ''https://api.example.com/v1'', cfg_model = js ''gpt-4o-mini''\<rparr>"

definition always_rejecting :: "js_value \<Rightarrow> unit externals" where
  "always_rejecting error =
     \<lparr>checkWithAiSdk = (\<lambda>config k. Rejected error),
      toISOString_now = js ''2025-12-10T12:00:00.000Z'',
      JSON_parse = (\<lambda>text. None)\<rparr>"

definition aborted_error :: js_value where
  "aborted_error = JError (js ''Error'') (js ''Request was aborted'') None None None []"




text \<open>
  An error of an aborted request that carries the status code and the body of a response,
  as the errors of the API client do. The body is JSON whose \<open>message\<close> is not a string
  but an object with a key \<open>toString\<close>. \<open>parse_unprintable\<close> is \<open>JSON.parse\<close> on that
  body; the runs below parse no other text, the body having no \<open>data:\<close> line.
\<close>

definition unprintable_body :: jsstring where
  \<open>unprintable_body = js ''{"message":{"toString":1}}''\<close>

definition unprintable_error :: js_value where
  "unprintable_error =
     JError (js ''Error'') (js ''Request was aborted'') None (Some 400)
       (Some unprintable_body) []"

definition parse_unprintable :: "jsstring \<Rightarrow> js_value option" where
  "parse_unprintable text =
     (if text = unprintable_body
      then Some (JObject [(js ''message'', JObject [(js ''toString'', JNumber 1)])])
      else None)"

definition rejecting_unprintable :: "unit externals" where
  "rejecting_unprintable =
     \<lparr>checkWithAiSdk = (\<lambda>config k. Rejected unprintable_error),
      toISOString_now = js ''2025-12-10T12:00:00.000Z'',
      JSON_parse = parse_unprintable\<rparr>"


section \<open>Response validator (lib/providers/challenge.ts)\<close>

record ValidationResult =
  valid :: bool
  extractedNumbers :: "jsstring list option"

text \<open>The class \<^verbatim>\<open>\d\<close> of a pattern without the unicode flag: the ten ASCII digits.\<close>

definition is_digit :: "code_unit \<Rightarrow> bool" where
  "is_digit c \<longleftrightarrow> 0x30 \<le> c \<and> c \<le> 0x39"

text \<open>
  The pattern \<^verbatim>\<open>/-?\d+/\<close> matched at the start of the input: the match and the rest of
  the input. The optional minus sign is taken if digits follow it; otherwise the engine
  backtracks and tries the digits without it. The digits are taken greedily.
\<close>

definition number_here :: "jsstring \<Rightarrow> (jsstring \<times> jsstring) option" where
  "number_here s =
     (case s of
        [] \<Rightarrow> None
      | c # cs \<Rightarrow>
          if c = 0x2D \<and> takeWhile is_digit cs \<noteq> []
          then Some (c # takeWhile is_digit cs, dropWhile is_digit cs)
          else if takeWhile is_digit (c # cs) \<noteq> []
          then Some (takeWhile is_digit (c # cs), dropWhile is_digit (c # cs))
          else None)"

lemma number_here_shorter:
  "number_here s = Some (m, rest) \<Longrightarrow> length rest < length s"
  by (auto simp: number_here_def less_Suc_eq_le length_dropWhile_le
           split: list.splits if_splits)

text \<open>
  \<open>String.prototype.match\<close> with a global pattern: all matches, from left to right, each
  search starting where the previous match ended; \<open>null\<close> if there is none.
\<close>

function match_all :: "jsstring \<Rightarrow> jsstring list" where
  "match_all [] = []"
| "match_all (c # cs) =
     (case number_here (c # cs) of
        Some (m, rest) \<Rightarrow> m # match_all rest
      | None \<Rightarrow> match_all cs)"
  by pat_completeness auto

termination
  by (relation "measure length") (auto dest: number_here_shorter)

definition String_match :: "jsstring \<Rightarrow> jsstring list option" where
  "String_match s = (case match_all s of [] \<Rightarrow> None | m # ms \<Rightarrow> Some (m # ms))"

definition validateResponse :: "jsstring option \<Rightarrow> jsstring option \<Rightarrow> ValidationResult" where
  "validateResponse response expected =
     (case (response, expected) of
        (Some r, Some e) \<Rightarrow>
          if r = [] \<or> e = [] then \<lparr>valid = False, extractedNumbers = None\<rparr>
          else (case String_match r of
                  None \<Rightarrow> \<lparr>valid = False, extractedNumbers = None\<rparr>
                | Some numbers \<Rightarrow> \<lparr>valid = (e \<in> set numbers), extractedNumbers = Some numbers\<rparr>)
      | _ \<Rightarrow> \<lparr>valid = False, extractedNumbers = None\<rparr>)"

text \<open>
  Reference notions. A number token is a string that the pattern matches as a whole: digits,
  or a minus sign and digits. An occurrence of a token \<open>w\<close> in a string is a split
  \<open>p @ w @ q\<close> of the string; it is maximal if no longer token occurs around it, that is,
  if adding to \<open>w\<close> the end of \<open>p\<close> and the start of \<open>q\<close> never gives a token.
\<close>

definition is_number_token :: "jsstring \<Rightarrow> bool" where
  "is_number_token w \<longleftrightarrow>
     (case w of
        [] \<Rightarrow> False
      | c # cs \<Rightarrow> (c = 0x2D \<and> cs \<noteq> [] \<and> list_all is_digit cs) \<or> list_all is_digit (c # cs))"

definition maximal_number_token :: "jsstring \<Rightarrow> jsstring \<Rightarrow> jsstring \<Rightarrow> bool" where
  "maximal_number_token p w q \<longleftrightarrow>
     is_number_token w \<and>
     (\<forall>a b. suffix a p \<and> prefix b q \<and> is_number_token (a @ w @ b) \<longrightarrow> a = [] \<and> b = [])"

text \<open>The matches of \<open>match_all\<close> together with where they occur.\<close>

function occurrences_from :: "jsstring \<Rightarrow> jsstring \<Rightarrow> (jsstring \<times> jsstring \<times> jsstring) list" where
  "occurrences_from p [] = []"
| "occurrences_from p (c # cs) =
     (case number_here (c # cs) of
        Some (m, rest) \<Rightarrow> (p, m, rest) # occurrences_from (p @ m) rest
      | None \<Rightarrow> occurrences_from (p @ [c]) cs)"
  by pat_completeness auto

termination
  by (relation "measure (\<lambda>(p, r). length r)") (auto dest: number_here_shorter)

text \<open>
  Between the part of the input already scanned and the rest, a token that starts with a
  digit at the start of the rest cannot be extended to the left.
\<close>

definition boundary_ok :: "jsstring \<Rightarrow> jsstring \<Rightarrow> bool" where
  "boundary_ok p r \<longleftrightarrow>
     \<not> (p \<noteq> [] \<and> r \<noteq> [] \<and> is_digit (hd r) \<and> (is_digit (last p) \<or> last p = 0x2D))"


section \<open>Challenge generator (lib/providers/challenge.ts)\<close>

record Challenge =
  prompt :: jsstring
  expectedAnswer :: jsstring

definition buildPromptWithExamples :: "jsstring \<Rightarrow> jsstring" where
  "buildPromptWithExamples question =
     js ''Calculate and respond with ONLY the number, nothing else.'' @ [0x0A, 0x0A]
     @ js ''Q: 3 + 5 = ?'' @ [0x0A] @ js ''A: 8'' @ [0x0A, 0x0A]
     @ js ''Q: 12 - 7 = ?'' @ [0x0A] @ js ''A: 5'' @ [0x0A, 0x0A]
     @ js ''Q: '' @ question @ [0x0A] @ js ''A:''"

text \<open>
  The three calls of \<open>Math.random()\<close> are the parameters \<open>u1\<close>, \<open>u2\<close> and \<open>u3\<close>: each is
  a binary64 value that is at least 0 and less than 1. The product with 50 is rounded to
  binary64 before \<open>Math.floor\<close>; the comparison with 0.5, the sums and the differences
  of the operands are exact.
\<close>

definition generateChallenge :: "rat \<Rightarrow> rat \<Rightarrow> rat \<Rightarrow> Challenge" where
  "generateChallenge u1 u2 u3 =
     (let a = \<lfloor>fl (u1 * 50)\<rfloor> + 1;
          b = \<lfloor>fl (u2 * 50)\<rfloor> + 1;
          isAddition = (u3 > 1 / 2)
      in if isAddition then
           (let answer = a + b
            in \<lparr>prompt = buildPromptWithExamples
                           (String_of_int a @ js '' + '' @ String_of_int b @ js '' = ?''),
                expectedAnswer = String_of_int answer\<rparr>)
         else
           (let larger = max a b;
                smaller = min a b;
                answer = larger - smaller
            in \<lparr>prompt = buildPromptWithExamples
                           (String_of_int larger @ js '' - '' @ String_of_int smaller @ js '' = ?''),
                expectedAnswer = String_of_int answer\<rparr>))"

text \<open>
  Reference notion: \<open>s\<close> is the decimal string of the natural number \<open>n\<close>: digits only,
  no leading zero unless it is the single digit, and the value \<open>n\<close>.
\<close>

definition decimal_value :: "jsstring \<Rightarrow> nat" where
  "decimal_value s = foldl (\<lambda>acc c. 10 * acc + (unat c - 48)) 0 s"

definition is_decimal_of :: "jsstring \<Rightarrow> nat \<Rightarrow> bool" where
  "is_decimal_of s n \<longleftrightarrow>
     s \<noteq> [] \<and> list_all is_digit s \<and> (length s = 1 \<or> hd s \<noteq> 0x30) \<and> decimal_value s = n"


section \<open>Bounded concurrency scheduler (provider check entry point)\<close>

text \<open>
  \<open>Promise.all\<close> over an array of promises whose settlements are given: \<open>Inr\<close> a value, or
  \<open>Inl\<close> a reason. The promises settle in the order of the list of their indices; a
  fulfilment stores the value at the index of its promise, the first rejection rejects the
  whole, and the whole resolves, with the values in the order of the array, once every
  slot is filled. \<open>None\<close> is a promise that stays pending.
\<close>

fun Promise_all_settle ::
  "(js_value + 'a) list \<Rightarrow> nat list \<Rightarrow> 'a option list \<Rightarrow> (js_value + 'a list) option" where
  "Promise_all_settle promises [] slots = map_option Inr (those slots)"
| "Promise_all_settle promises (i # order) slots =
     (if i < length promises then
        (case promises ! i of
           Inl reason \<Rightarrow> Some (Inl reason)
         | Inr v \<Rightarrow> Promise_all_settle promises order (slots[i := Some v]))
      else Promise_all_settle promises order slots)"

definition Promise_all :: "(js_value + 'a) list \<Rightarrow> nat list \<Rightarrow> (js_value + 'a list) option" where
  "Promise_all promises order =
     Promise_all_settle promises order (replicate (length promises) None)"

text \<open>
  \<open>Array.prototype.sort\<close> with a comparison function: a stable sort, here by insertion.
  An element goes before the first element that it does not follow.
\<close>

fun insert_sorted :: "('a \<Rightarrow> 'a \<Rightarrow> int) \<Rightarrow> 'a \<Rightarrow> 'a list \<Rightarrow> 'a list" where
  "insert_sorted cmp x [] = [x]"
| "insert_sorted cmp x (y # ys) =
     (if cmp x y \<le> 0 then x # y # ys else y # insert_sorted cmp x ys)"

definition Array_sort :: "('a \<Rightarrow> 'a \<Rightarrow> int) \<Rightarrow> 'a list \<Rightarrow> 'a list" where
  "Array_sort cmp xs = foldr (insert_sorted cmp) xs []"

text \<open>
  \<open>runProviderChecks\<close>. Its parameters from outside: \<open>exts i\<close> is what the check of
  configuration number \<open>i\<close> is given (how the invocations of its provider check settle);
  \<open>localeCompare\<close> is \<open>String.prototype.localeCompare\<close>; \<open>order\<close> is the order in which
  the checks complete. The limiter of \<open>pLimit(getCheckConcurrency())\<close> bounds how many
  checks are in flight: it delays the start of a check and so restricts the orders of
  completion that can occur, and nothing else; no assumption is made on the order here.
  The result is the settlement of the returned promise.
\<close>

definition runProviderChecks ::
  "(nat \<Rightarrow> 'c externals) \<Rightarrow> (jsstring \<Rightarrow> jsstring \<Rightarrow> int) \<Rightarrow> nat list
     \<Rightarrow> 'c ProviderConfig_scheme list \<Rightarrow> (js_value + CheckResult list) option" where
  "runProviderChecks exts localeCompare order configs =
     (if length configs = 0 then Some (Inr [])
      else
        (case Promise_all
                (map (\<lambda>i. fst (checkWithRetry (exts i) (configs ! i))) [0..<length configs])
                order of
           None \<Rightarrow> None
         | Some (Inl reason) \<Rightarrow> Some (Inl reason)
         | Some (Inr results) \<Rightarrow>
             Some (Inr (Array_sort (\<lambda>a b. localeCompare (name a) (name b)) results))))"

text \<open>
  Concrete instances: a provider check that resolves at once with an operational result for
  the configuration, three configurations, and a comparison of strings that ignores the
  case of ASCII letters.
\<close>

definition always_operational :: "unit externals" where
  "always_operational =
     \<lparr>checkWithAiSdk = (\<lambda>config k.
        Resolved \<lparr>rid = cfg_id config, name = cfg_name config, rtype = cfg_type config,
           endpoint = cfg_endpoint config, model = cfg_model config, status = Operational,
           latencyMs = Some 120, pingLatencyMs = Some 30,
           checkedAt = js ''2025-12-10T12:00:00.000Z'', message = js ''OK''\<rparr>),
      toISOString_now = js ''2025-12-10T12:00:00.000Z'',
      JSON_parse = (\<lambda>text. None)\<rparr>"

definition config_named :: "jsstring \<Rightarrow> ProviderConfig" where
  "config_named n = \<lparr>cfg_id = n, cfg_name = n, cfg_type = js ''openai'',
     cfg_endpoint = js ''https://api.example.com/v1'', cfg_model = js ''gpt-4o-mini''\<rparr>"

definition compare_ignoring_case :: "jsstring \<Rightarrow> jsstring \<Rightarrow> int" where
  "compare_ignoring_case a b =
     (if map ascii_lower a < map ascii_lower b then - 1
      else if map ascii_lower b < map ascii_lower a then 1 else 0)"

definition three_configs :: "ProviderConfig list" where
  "three_configs = [config_named (js ''Zeta''), config_named (js ''Alpha''), config_named (js ''mu'')]"

definition operational_result :: "jsstring \<Rightarrow> CheckResult" where
  "operational_result n =
     \<lparr>rid = n, name = n, rtype = js ''openai'', endpoint = js ''https://api.example.com/v1'',
      model = js ''gpt-4o-mini'', status = Operational, latencyMs = Some 120,
      pingLatencyMs = Some 30, checkedAt = js ''2025-12-10T12:00:00.000Z'', message = js ''OK''\<rparr>"

text \<open>The slots of \<open>Promise.all\<close> after the promises of the given indices fulfilled.\<close>

definition fill_slots :: "'a list \<Rightarrow> nat list \<Rightarrow> 'a option list \<Rightarrow> 'a option list" where
  "fill_slots rs order slots =
     fold (\<lambda>i s. if i < length rs then s[i := Some (rs ! i)] else s) order slots"


section \<open>Properties of binary64 rounding\<close>

lemma bitlen_rat_bounds:
  assumes "0 < p"
  shows "(2::rat) powi (bitlen p - 1) \<le> of_int p" "of_int p < (2::rat) powi bitlen p"
proof -
  from assms have b1: "1 \<le> bitlen p" by (auto simp: bitlen_alt_def)
  from bitlen_bounds [OF assms]
  have lo: "2 ^ nat (bitlen p - 1) \<le> p" and hi: "p < 2 ^ nat (bitlen p)" by simp_all
  have "(of_int (2 ^ nat (bitlen p - 1)) :: rat) \<le> of_int p"
    using lo by (simp only: of_int_le_iff)
  then show "(2::rat) powi (bitlen p - 1) \<le> of_int p"
    using b1 by (simp add: power_int_def)
  have "(of_int p :: rat) < of_int (2 ^ nat (bitlen p))"
    using hi by (simp only: of_int_less_iff)
  then show "of_int p < (2::rat) powi bitlen p"
    using b1 by (simp add: power_int_def)
qed

lemma binade_bounds:
  assumes "x \<noteq> 0"
  shows "2 powi binade x \<le> \<bar>x\<bar>" and "\<bar>x\<bar> < 2 powi (binade x + 1)"
proof -
  obtain p q where pq: "quotient_of \<bar>x\<bar> = (p, q)" by (cases "quotient_of \<bar>x\<bar>")
  have q: "0 < q" using quotient_of_denom_pos [OF pq] .
  have x: "\<bar>x\<bar> = of_int p / of_int q" using quotient_of_div [OF pq] .
  have "0 < \<bar>x\<bar>" using assms by simp
  then have p: "0 < p" using q unfolding x by (simp add: zero_less_divide_iff)
  note bp = bitlen_rat_bounds [OF p] and bq = bitlen_rat_bounds [OF q]
  have qpos: "(0::rat) < of_int q" using q by simp
  have e: "binade x = (if 2 powi (bitlen p - bitlen q) \<le> \<bar>x\<bar>
                       then bitlen p - bitlen q else bitlen p - bitlen q - 1)"
    by (simp add: binade_def pq Let_def)
  have up: "\<bar>x\<bar> < 2 powi (bitlen p - bitlen q + 1)"
  proof -
    have "of_int p < (2::rat) powi (bitlen p - bitlen q + 1) * 2 powi (bitlen q - 1)"
      using bp(2) by (simp flip: power_int_add)
    also have "\<dots> \<le> 2 powi (bitlen p - bitlen q + 1) * of_int q"
      using bq(1) by (intro mult_left_mono) simp_all
    finally show ?thesis unfolding x using qpos by (simp add: pos_divide_less_eq)
  qed
  have lo: "2 powi (bitlen p - bitlen q - 1) \<le> \<bar>x\<bar>"
  proof -
    have "(2::rat) powi (bitlen p - bitlen q - 1) * of_int q
            \<le> 2 powi (bitlen p - bitlen q - 1) * 2 powi bitlen q"
      using bq(2) by (intro mult_left_mono) simp_all
    also have "\<dots> = 2 powi (bitlen p - 1)" by (simp flip: power_int_add)
    also have "\<dots> \<le> of_int p" by (rule bp(1))
    finally show ?thesis unfolding x using qpos by (simp add: pos_le_divide_eq)
  qed
  show "2 powi binade x \<le> \<bar>x\<bar>" using lo by (simp add: e)
  show "\<bar>x\<bar> < 2 powi (binade x + 1)" using up by (auto simp add: e)
qed

lemma two_powi_less_D: "(2::rat) powi a < 2 powi b \<Longrightarrow> a < b"
  using power_int_increasing [of b a "2::rat"] by (cases "a < b") simp_all

lemma binade_unique:
  assumes "2 powi e \<le> \<bar>x\<bar>" and "\<bar>x\<bar> < 2 powi (e + 1)"
  shows "binade x = e"
proof -
  have "0 < (2::rat) powi e" by simp
  with assms(1) have "0 < \<bar>x\<bar>" by linarith
  then have nz: "x \<noteq> 0" by simp
  note b = binade_bounds [OF nz]
  have "(2::rat) powi binade x < 2 powi (e + 1)" using b(1) assms(2) by linarith
  then have "binade x < e + 1" by (rule two_powi_less_D)
  moreover have "(2::rat) powi e < 2 powi (binade x + 1)" using b(2) assms(1) by linarith
  then have "e < binade x + 1" by (rule two_powi_less_D)
  ultimately show ?thesis by simp
qed

lemma round_even_close: "\<bar>of_int (round_even y) - y\<bar> \<le> 1 / 2"
proof -
  have f: "of_int \<lfloor>y\<rfloor> \<le> y" "y < of_int \<lfloor>y\<rfloor> + 1" by linarith+
  consider "y - of_int \<lfloor>y\<rfloor> < 1 / 2" | "1 / 2 < y - of_int \<lfloor>y\<rfloor>"
    | "y - of_int \<lfloor>y\<rfloor> = 1 / 2" by linarith
  then show ?thesis
  proof cases
    case 1
    then have "round_even y = \<lfloor>y\<rfloor>" by (simp add: round_even_def Let_def)
    then show ?thesis using 1 f by simp
  next
    case 2
    then have "round_even y = \<lfloor>y\<rfloor> + 1" by (simp add: round_even_def Let_def)
    then show ?thesis using 2 f by simp
  next
    case 3
    then have "round_even y = \<lfloor>y\<rfloor> \<or> round_even y = \<lfloor>y\<rfloor> + 1"
      by (simp add: round_even_def Let_def)
    then show ?thesis using 3 by auto
  qed
qed

lemma round_even_le:
  assumes "y \<le> of_int n"
  shows "round_even y \<le> n"
proof -
  have f: "\<lfloor>y\<rfloor> \<le> n" using assms by (simp add: floor_le_iff)
  show ?thesis
  proof (cases "\<lfloor>y\<rfloor> = n")
    case True
    then have "y - of_int \<lfloor>y\<rfloor> \<le> 0" using assms by simp
    then show ?thesis using True by (simp add: round_even_def Let_def)
  next
    case False
    with f have "\<lfloor>y\<rfloor> + 1 \<le> n" by simp
    then show ?thesis by (auto simp add: round_even_def Let_def)
  qed
qed


lemma round_even_le_half:
  assumes "y < of_int n + 1 / 2"
  shows "round_even y \<le> n"
proof -
  have "y < of_int n + 1" using assms by linarith
  then have f: "\<lfloor>y\<rfloor> \<le> n" by (simp add: floor_le_iff)
  show ?thesis
  proof (cases "\<lfloor>y\<rfloor> = n")
    case True
    then have "y - of_int \<lfloor>y\<rfloor> < 1 / 2" using assms by simp
    then show ?thesis using True by (simp add: round_even_def Let_def)
  next
    case False
    with f have "\<lfloor>y\<rfloor> + 1 \<le> n" by simp
    then show ?thesis by (auto simp add: round_even_def Let_def)
  qed
qed

lemma round_even_ge:
  assumes "of_int n \<le> y"
  shows "n \<le> round_even y"
proof -
  have "n \<le> \<lfloor>y\<rfloor>" using assms by (simp add: le_floor_iff)
  then show ?thesis by (auto simp add: round_even_def Let_def)
qed

lemma two_powi_half: "(2::rat) powi (e - 1) = 2 powi e / 2"
  by (simp add: power_int_diff)

lemma fl_scaled:
  assumes "x \<noteq> 0"
  shows "fl x = of_int (round_even (x / 2 powi max (binade x - 52) (- 1074)))
                  * 2 powi max (binade x - 52) (- 1074)"
  using assms by (simp add: fl_def Let_def)

lemma fl_error_abs:
  assumes "x \<noteq> 0" and "- 1022 \<le> binade x"
  shows "\<bar>fl x - x\<bar> \<le> 2 powi (binade x - 53)"
proof -
  let ?E = "binade x - 52"
  let ?y = "x / 2 powi ?E"
  have E: "max (binade x - 52) (- 1074) = ?E" using assms(2) by simp
  have p: "0 < (2::rat) powi ?E" by simp
  have x: "x = ?y * 2 powi ?E" using p by simp
  have "fl x - x = of_int (round_even ?y) * 2 powi ?E - ?y * 2 powi ?E"
    using fl_scaled [OF assms(1)] unfolding E using x by simp
  also have "\<dots> = (of_int (round_even ?y) - ?y) * 2 powi ?E"
    by (simp only: left_diff_distrib)
  finally have "\<bar>fl x - x\<bar> = \<bar>of_int (round_even ?y) - ?y\<bar> * 2 powi ?E"
    using p by (simp add: abs_mult)
  also have "\<dots> \<le> (1 / 2) * 2 powi ?E"
    using round_even_close [of ?y] p by (intro mult_right_mono) simp_all
  also have "\<dots> = 2 powi (binade x - 53)"
    using two_powi_half [of ?E] by simp
  finally show ?thesis .
qed

lemma fl_error_rel:
  assumes "2 powi (- 1022) \<le> \<bar>x\<bar>"
  shows "\<bar>fl x - x\<bar> \<le> \<bar>x\<bar> / 2 ^ 53"
proof -
  have "0 < (2::rat) powi (- 1022)" by simp
  with assms have "0 < \<bar>x\<bar>" by linarith
  then have nz: "x \<noteq> 0" by simp
  note b = binade_bounds [OF nz]
  have "(2::rat) powi (- 1022) < 2 powi (binade x + 1)" using assms b(2) by linarith
  then have "- 1022 < binade x + 1" by (rule two_powi_less_D)
  then have "\<bar>fl x - x\<bar> \<le> 2 powi (binade x - 53)"
    using fl_error_abs [OF nz] by simp
  also have "\<dots> = 2 powi binade x / 2 ^ 53"
    by (simp add: power_int_diff)
  also have "\<dots> \<le> \<bar>x\<bar> / 2 ^ 53"
    using b(1) by (simp add: divide_right_mono)
  finally show ?thesis .
qed

lemma fl_error_rel_small:
  assumes "1 / 2 ^ 40 \<le> \<bar>x\<bar>"
  shows "\<bar>fl x - x\<bar> \<le> \<bar>x\<bar> / 2 ^ 53"
proof -
  have "(2::rat) powi (- 1022) \<le> 2 powi (- 40)"
    by (rule power_int_increasing) simp_all
  moreover have "(2::rat) powi (- 40) = 1 / 2 ^ 40"
    by (simp add: power_int_minus_divide)
  ultimately have "(2::rat) powi (- 1022) \<le> \<bar>x\<bar>"
    using assms by (simp only: order_trans)
  then show ?thesis by (rule fl_error_rel)
qed

lemma fl_nonneg:
  assumes "0 \<le> x"
  shows "0 \<le> fl x"
proof (cases "x = 0")
  case True
  then show ?thesis by (simp add: fl_def)
next
  case False
  let ?E = "max (binade x - 52) (- 1074)"
  have "of_int 0 \<le> x / 2 powi ?E" using assms by simp
  then have "0 \<le> round_even (x / 2 powi ?E)" by (rule round_even_ge)
  then show ?thesis unfolding fl_scaled [OF False] by simp
qed

lemma fl_le_two_powi:
  assumes "0 < x" and "x \<le> 2 powi k" and "- 1074 \<le> k"
  shows "fl x \<le> 2 powi k"
proof -
  have nz: "x \<noteq> 0" using assms(1) by simp
  let ?E = "max (binade x - 52) (- 1074)"
  have "(2::rat) powi binade x \<le> \<bar>x\<bar>" by (rule binade_bounds [OF nz])
  then have "(2::rat) powi binade x < 2 powi (k + 1)"
    using assms(1,2) power_int_strict_increasing [of k "k + 1" "2::rat"] by simp
  then have "binade x < k + 1" by (rule two_powi_less_D)
  then have Ek: "?E \<le> k" using assms(3) by simp
  have p: "0 < (2::rat) powi ?E" by simp
  have n: "(of_int (2 ^ nat (k - ?E)) :: rat) = 2 powi (k - ?E)"
    using Ek by (simp add: power_int_def)
  have "x / 2 powi ?E \<le> 2 powi k / 2 powi ?E"
    using assms(2) p by (simp add: divide_right_mono)
  also have "\<dots> = of_int (2 ^ nat (k - ?E))"
    unfolding n by (simp add: power_int_diff)
  finally have "x / 2 powi ?E < of_int (2 ^ nat (k - ?E)) + 1 / 2" by linarith
  then have "round_even (x / 2 powi ?E) \<le> 2 ^ nat (k - ?E)" by (rule round_even_le_half)
  then have "(of_int (round_even (x / 2 powi ?E)) :: rat) \<le> of_int (2 ^ nat (k - ?E))"
    by (simp only: of_int_le_iff)
  then have "fl x \<le> of_int (2 ^ nat (k - ?E)) * 2 powi ?E"
    unfolding fl_scaled [OF nz] using p by (intro mult_right_mono) simp_all
  also have "\<dots> = 2 powi k" unfolding n by (simp flip: power_int_add)
  finally show ?thesis .
qed


lemma binary64_below_one:
  assumes "fl u = u" and "0 \<le> u" and "u < 1"
  shows "u \<le> 1 - 1 / 2 ^ 53"
proof (cases "u = 0")
  case True
  then show ?thesis by simp
next
  case False
  note b = binade_bounds [OF False]
  have "(2::rat) powi binade u < 2 powi 0" using b(1) assms(2,3) by simp
  then have neg: "binade u < 0" by (rule two_powi_less_D)
  show ?thesis
  proof (cases "binade u = - 1")
    case True
    let ?m = "round_even (u / 2 powi (- 53))"
    have u: "u = of_int ?m * 2 powi (- 53)"
      using fl_scaled [OF False] assms(1) True by simp
    then have "of_int ?m * 2 powi (- 53) < (1::rat)" using assms(3) by simp
    then have "(of_int ?m :: rat) < 2 ^ 53" by (simp add: field_simps)
    then have "(of_int ?m :: rat) < of_int (2 ^ 53)" by simp
    then have "?m < 2 ^ 53" by (simp only: of_int_less_iff)
    then have "?m \<le> 2 ^ 53 - 1" by simp
    then have "(of_int ?m :: rat) \<le> of_int (2 ^ 53 - 1)" by (simp only: of_int_le_iff)
    then have "of_int ?m * 2 powi (- 53) \<le> (of_int (2 ^ 53 - 1) :: rat) * 2 powi (- 53)"
      by (intro mult_right_mono) simp_all
    then show ?thesis unfolding u [symmetric] by simp
  next
    case False
    with neg have "binade u + 1 \<le> - 1" by simp
    then have "(2::rat) powi (binade u + 1) \<le> 2 powi (- 1)"
      by (intro power_int_increasing) simp_all
    then have "u < 1 / 2" using b(2) assms(2) by simp
    then show ?thesis by simp
  qed
qed

lemma fl_below_50:
  assumes "0 \<le> x" and "x \<le> 50 - 50 / 2 ^ 53"
  shows "fl x < 50"
proof (cases "x = 0")
  case True
  then show ?thesis by (simp add: fl_def)
next
  case False
  then have pos: "0 < x" using assms(1) by simp
  note b = binade_bounds [OF False]
  have "(2::rat) powi binade x < 2 powi 6" using b(1) assms pos by simp
  then have b6: "binade x < 6" by (rule two_powi_less_D)
  show ?thesis
  proof (cases "binade x = 5")
    case True
    let ?y = "x / 2 powi (- 47)"
    have "?y = x * 2 ^ 47" by (simp add: field_simps)
    then have "?y < of_int (50 * 2 ^ 47 - 1) + 1 / 2" using assms(2) by simp
    then have "round_even ?y \<le> 50 * 2 ^ 47 - 1" by (rule round_even_le_half)
    then have "(of_int (round_even ?y) :: rat) \<le> of_int (50 * 2 ^ 47 - 1)"
      by (simp only: of_int_le_iff)
    then have "of_int (round_even ?y) * 2 powi (- 47)
                 \<le> (of_int (50 * 2 ^ 47 - 1) :: rat) * 2 powi (- 47)"
      by (intro mult_right_mono) simp_all
    moreover have "fl x = of_int (round_even ?y) * 2 powi (- 47)"
      using fl_scaled [OF False] True by simp
    ultimately show ?thesis by simp
  next
    case False
    with b6 have "binade x + 1 \<le> 5" by simp
    then have "(2::rat) powi (binade x + 1) \<le> 2 powi 5"
      by (intro power_int_increasing) simp_all
    then have "x \<le> 2 powi 5" using b(2) pos by simp
    from fl_le_two_powi [OF pos this] show ?thesis by simp
  qed
qed

lemma rate_error_unit:
  fixes q :: rat
  assumes q0: "1 / 4294967296 \<le> q" and q1: "q \<le> 1"
  shows "\<bar>fl (fl (fl q * 100) * 100) - 10000 * q\<bar> \<le> 40100 / 2 ^ 53"
proof -
  define r1 where "r1 = fl q"
  define r2 where "r2 = fl (r1 * 100)"
  define x where "x = fl (r2 * 100)"
  have err: "\<bar>fl y - y\<bar> \<le> y / 9007199254740992" if "1 / 1099511627776 \<le> y" for y :: rat
  proof -
    have "1 / 2 ^ 40 \<le> \<bar>y\<bar>" using that by simp
    from fl_error_rel_small [OF this] that show ?thesis by simp
  qed
  have e1: "\<bar>r1 - q\<bar> \<le> q / 9007199254740992"
    unfolding r1_def using q0 by (intro err) linarith
  have r1lo: "1 / 8589934592 \<le> r1" using e1 q0 by linarith
  have r1hi: "r1 \<le> 2" using e1 q1 by linarith
  have e2: "\<bar>r2 - r1 * 100\<bar> \<le> r1 * 100 / 9007199254740992"
    unfolding r2_def using r1lo by (intro err) linarith
  have r2lo: "1 / 8589934592 \<le> r2" using e2 r1lo by linarith
  have r2hi: "r2 \<le> 101" using e1 e2 q1 by linarith
  have e3: "\<bar>x - r2 * 100\<bar> \<le> r2 * 100 / 9007199254740992"
    unfolding x_def using r2lo by (intro err) linarith
  have "\<bar>x - 10000 * q\<bar> \<le> 40100 / 9007199254740992"
    using e1 e2 e3 q1 r1hi r2hi by linarith
  then show ?thesis unfolding x_def r2_def r1_def by simp
qed

lemma rate_error:
  fixes s n :: nat
  assumes "0 < s" and "s \<le> n" and "n < 2 ^ 32"
  shows "\<bar>fl (fl (fl (of_nat s / of_nat n) * 100) * 100) - 10000 * (of_nat s / of_nat n)\<bar>
           \<le> 40100 / 2 ^ 53"
proof -
  have n0: "(0::rat) < of_nat n" using assms(1,2) by simp
  have nle: "(of_nat n :: rat) \<le> 4294967296"
  proof -
    have "(of_nat n :: rat) \<le> of_nat (2 ^ 32)" using assms(3) by (simp only: of_nat_le_iff)
    then show ?thesis by simp
  qed
  have s1: "(1::rat) \<le> of_nat s" using assms(1) by simp
  have q0: "1 / 4294967296 \<le> (of_nat s :: rat) / of_nat n"
    using s1 n0 nle by (intro frac_le) simp_all
  have q1: "(of_nat s :: rat) / of_nat n \<le> 1" using assms(2) n0 by simp
  from q0 q1 show ?thesis by (rule rate_error_unit)
qed

lemma Math_round_near:
  fixes t x :: rat and n :: nat and N :: int
  assumes n: "0 < n" and N: "of_int N = t * (2 * of_nat n)" and x: "\<bar>x - t\<bar> < 1 / (2 * of_nat n)"
  shows "of_int (Math_round t) \<noteq> t + 1 / 2 \<Longrightarrow> Math_round x = Math_round t"
    and "of_int (Math_round t) = t + 1 / 2 \<Longrightarrow>
           Math_round x = Math_round t \<or> Math_round x = Math_round t - 1"
proof -
  let ?m = "Math_round t"
  let ?d = "1 / (2 * of_nat n) :: rat"
  have m: "of_int ?m \<le> t + 1 / 2" "t + 1 / 2 < of_int ?m + 1"
    unfolding Math_round_def by linarith+
  have n2: "(0::rat) < 2 * of_nat n" using n by simp
  have d1: "?d \<le> 1" using n by simp
  have up: "?d \<le> of_int ?m + 1 - (t + 1 / 2)"
  proof -
    have "(of_int ?m + 1 - (t + 1 / 2)) * (2 * of_nat n)
            = of_int (2 * ?m * int n + int n - N)"
      by (simp add: N algebra_simps)
    moreover have "0 < (of_int ?m + 1 - (t + 1 / 2)) * (2 * of_nat n)"
      using m(2) n2 by simp
    ultimately have "(0::rat) < of_int (2 * ?m * int n + int n - N)" by simp
    then have "0 < 2 * ?m * int n + int n - N" by (simp only: of_int_0_less_iff)
    then have "1 \<le> 2 * ?m * int n + int n - N" by simp
    then have "(1::rat) \<le> of_int (2 * ?m * int n + int n - N)" by (simp only: of_int_1_le_iff)
    also have "\<dots> = (of_int ?m + 1 - (t + 1 / 2)) * (2 * of_nat n)"
      by (simp add: N algebra_simps)
    finally show ?thesis using n2 by (simp add: pos_divide_le_eq)
  qed
  {
    assume nt: "of_int ?m \<noteq> t + 1 / 2"
    have lo: "?d \<le> t + 1 / 2 - of_int ?m"
    proof -
      have "(t + 1 / 2 - of_int ?m) * (2 * of_nat n)
              = of_int (N + int n - 2 * ?m * int n)"
        by (simp add: N algebra_simps)
      moreover have "0 < (t + 1 / 2 - of_int ?m) * (2 * of_nat n)"
        using m(1) nt n2 by simp
      ultimately have "(0::rat) < of_int (N + int n - 2 * ?m * int n)" by simp
      then have "0 < N + int n - 2 * ?m * int n" by (simp only: of_int_0_less_iff)
      then have "1 \<le> N + int n - 2 * ?m * int n" by simp
      then have "(1::rat) \<le> of_int (N + int n - 2 * ?m * int n)"
        by (simp only: of_int_1_le_iff)
      also have "\<dots> = (t + 1 / 2 - of_int ?m) * (2 * of_nat n)"
        by (simp add: N algebra_simps)
      finally show ?thesis using n2 by (simp add: pos_divide_le_eq)
    qed
    have "of_int ?m \<le> x + 1 / 2" "x + 1 / 2 < of_int ?m + 1" using lo up x by linarith+
    then show "Math_round x = ?m" unfolding Math_round_def by (simp add: floor_unique)
  }
  {
    assume tie: "of_int ?m = t + 1 / 2"
    have "of_int (?m - 1) \<le> x + 1 / 2" "x + 1 / 2 < of_int ?m + 1" using tie x d1 by simp_all
    then have "?m - 1 \<le> \<lfloor>x + 1 / 2\<rfloor>" "\<lfloor>x + 1 / 2\<rfloor> < ?m + 1"
      by (simp_all add: le_floor_iff floor_less_iff floor_le_iff)
    then show "Math_round x = ?m \<or> Math_round x = ?m - 1"
      unfolding Math_round_def by linarith
  }
qed


section \<open>Properties of the statistics aggregator\<close>

lemma stat_loop_counts:
  "v_operational (stat_loop items v) = v_operational v + count_status Operational items"
  "v_degraded (stat_loop items v) = v_degraded v + count_status Degraded items"
  "v_failed (stat_loop items v) = v_failed v + count_status Failed items"
  "v_validationFailed (stat_loop items v) = v_validationFailed v + count_status ValidationFailed items"
  "v_latencies (stat_loop items v) = v_latencies v @ known_latencies items"
  by (induction items arbitrary: v;
      simp add: count_status_def known_latencies_def stat_step_def stat_switch_def Let_def
           split: HealthStatus.splits option.splits)+








lemma Math_round_bounds:
  "of_int (Math_round x) \<le> x + 1 / 2" "x - 1 / 2 < of_int (Math_round x)"
  unfolding Math_round_def by linarith+




lemma computeStatistics_nonempty:
  assumes "items \<noteq> []"
  shows "totalChecks (computeStatistics items) = length items"
    and "operationalCount (computeStatistics items) = count_status Operational items"
    and "degradedCount (computeStatistics items) = count_status Degraded items"
    and "failedCount (computeStatistics items) = count_status Failed items"
    and "validationFailedCount (computeStatistics items) = count_status ValidationFailed items"
    and "successRate (computeStatistics items) =
          fl (of_int (Math_round (fl (fl (fl
                (of_nat (count_status Operational items + count_status Degraded items)
                   / of_nat (length items)) * 100) * 100))) / 100)"
  using assms
  by (simp_all add: computeStatistics_def Let_def stat_loop_counts stat_init_def
        split: list.splits prod.splits)




lemma count_status_append_Error:
  assumes "status e = Error" "st \<noteq> Error"
  shows "count_status st (xs @ e # ys) = count_status st (xs @ ys)"
  using assms by (simp add: count_status_def)




lemma count_status_total:
  "count_status Operational items + count_status Degraded items + count_status Failed items
     + count_status ValidationFailed items + count_status Error items
     + count_status Maintenance items = length items"
proof (induction items)
  case Nil
  show ?case by (simp add: count_status_def)
next
  case (Cons r items)
  then show ?case by (cases "status r") (simp_all add: count_status_def)
qed

lemma tie_2dp_iff: "tie_2dp r \<longleftrightarrow> of_int (Math_round (r * 100)) = r * 100 + 1 / 2"
proof
  assume "tie_2dp r"
  then have y: "r * 100 + 1 / 2 = of_int (\<lfloor>r * 100\<rfloor> + 1)" by (simp add: tie_2dp_def)
  have "\<lfloor>r * 100 + 1 / 2\<rfloor> = \<lfloor>r * 100\<rfloor> + 1" unfolding y by (simp only: floor_of_int)
  then show "of_int (Math_round (r * 100)) = r * 100 + 1 / 2"
    unfolding Math_round_def using y by simp
next
  assume a: "of_int (Math_round (r * 100)) = r * 100 + 1 / 2"
  then have "r * 100 = of_int (Math_round (r * 100) - 1) + 1 / 2" by simp
  then have "\<lfloor>r * 100\<rfloor> = Math_round (r * 100) - 1" by (simp add: floor_unique)
  with a show "tie_2dp r" by (simp add: tie_2dp_def)
qed

lemma successRate_rounding:
  fixes s n :: nat
  assumes "s \<le> n" and "0 < n" and "n < 2 ^ 32"
  shows "\<not> tie_2dp (100 * of_nat s / of_nat n) \<Longrightarrow>
           Math_round (fl (fl (fl (of_nat s / of_nat n) * 100) * 100))
             = Math_round (100 * of_nat s / of_nat n * 100)"
    and "tie_2dp (100 * of_nat s / of_nat n) \<Longrightarrow>
           Math_round (fl (fl (fl (of_nat s / of_nat n) * 100) * 100))
             = Math_round (100 * of_nat s / of_nat n * 100) \<or>
           Math_round (fl (fl (fl (of_nat s / of_nat n) * 100) * 100))
             = Math_round (100 * of_nat s / of_nat n * 100) - 1"
proof -
  let ?t = "100 * of_nat s / of_nat n * 100 :: rat"
  let ?x = "fl (fl (fl (of_nat s / of_nat n) * 100) * 100)"
  have n0: "(0::rat) < of_nat n" using assms(2) by simp
  have N: "of_int (20000 * int s) = ?t * (2 * of_nat n)" using n0 by simp
  have gap: "(1::rat) / 8589934592 \<le> 1 / (2 * of_nat n)"
  proof -
    have "(of_nat n :: rat) \<le> of_nat (2 ^ 32)" using assms(3) by (simp only: of_nat_le_iff)
    then have "2 * (of_nat n :: rat) \<le> 8589934592" by simp
    then show ?thesis using n0 by (intro divide_left_mono) simp_all
  qed
  have x: "\<bar>?x - ?t\<bar> < 1 / (2 * of_nat n)"
  proof (cases "s = 0")
    case True
    then have "?x - ?t = 0" by (simp add: fl_def)
    then show ?thesis using n0 by simp
  next
    case False
    then have "0 < s" by simp
    from rate_error [OF this assms(1,3)]
    have "\<bar>?x - 10000 * (of_nat s / of_nat n)\<bar> \<le> 40100 / 9007199254740992" by simp
    moreover have "10000 * ((of_nat s :: rat) / of_nat n) = ?t" by simp
    moreover have "(40100::rat) / 9007199254740992 < 1 / 8589934592" by simp
    ultimately show ?thesis using gap by linarith
  qed
  note near = Math_round_near [OF assms(2) N x]
  {
    assume "\<not> tie_2dp (100 * of_nat s / of_nat n)"
    then have "of_int (Math_round ?t) \<noteq> ?t + 1 / 2" unfolding tie_2dp_iff .
    then show "Math_round ?x = Math_round ?t" by (rule near(1))
  }
  {
    assume "tie_2dp (100 * of_nat s / of_nat n)"
    then have "of_int (Math_round ?t) = ?t + 1 / 2" unfolding tie_2dp_iff .
    then show "Math_round ?x = Math_round ?t \<or> Math_round ?x = Math_round ?t - 1"
      by (rule near(2))
  }
qed

lemma rate_examples:
  "fl (of_int (Math_round (fl (fl (fl (4 / 5) * 100) * 100))) / 100) = 80"
  "fl (of_int (Math_round (fl (fl (fl (23 / 160) * 100) * 100))) / 100) = fl (1437 / 100)"
  "fl (1437 / 100) < 1437001 / 100000"
  "fl (1438 / 100) > 1437999 / 100000"
  by code_simp+

text \<open>
  The success rate is not always the rate rounded to two decimals. Of 160 checks, 23 are
  operational and none is degraded: the rate is 14.375, which rounded to two decimals is
  14.38, whether a tie goes upwards or to the even neighbour. \<open>computeStatistics\<close>
  returns the binary64 value nearest to 14.37, because the product of the quotient
  \<open>23 / 160\<close> with 100 and again with 100, rounded to binary64 at each step, is just
  below 1437.5.
\<close>

theorem computeStatistics_successRate_tie:
  "tie_items \<noteq> [] \<and>
   totalChecks (computeStatistics tie_items) = 160 \<and>
   operationalCount (computeStatistics tie_items) = 23 \<and>
   degradedCount (computeStatistics tie_items) = 0 \<and>
   (100 * (23 + 0) / 160 :: rat) = 14375 / 1000 \<and>
   round_2dp (100 * (23 + 0) / 160) = 1438 / 100 \<and>
   successRate (computeStatistics tie_items) = fl (1437 / 100) \<and>
   successRate (computeStatistics tie_items) < 1437001 / 100000 \<and>
   1437999 / 100000 < fl (round_2dp (100 * (23 + 0) / 160)) \<and>
   successRate (computeStatistics tie_items) \<noteq> fl (round_2dp (100 * (23 + 0) / 160))"
proof -
  have ne: "tie_items \<noteq> []" by (simp add: tie_items_def)
  note cs = computeStatistics_nonempty [OF ne]
  have c: "count_status Operational tie_items = 23" "count_status Degraded tie_items = 0"
    "length tie_items = 160"
    by (simp_all add: tie_items_def count_status_def sample_def)
  have r: "round_2dp (100 * (23 + 0) / 160) = 1438 / 100"
    by (simp add: round_2dp_def Math_round_def floor_unique)
  have s: "successRate (computeStatistics tie_items) = fl (1437 / 100)"
    unfolding cs(6) c using rate_examples(2) by simp
  have lt: "successRate (computeStatistics tie_items) < 1437001 / 100000"
    unfolding s by (rule rate_examples(3))
  have gt: "1437999 / 100000 < fl (round_2dp (100 * (23 + 0) / 160))"
    unfolding r using rate_examples(4) by simp
  from lt gt have "successRate (computeStatistics tie_items)
                     \<noteq> fl (round_2dp (100 * (23 + 0) / 160))"
    by linarith
  with ne cs(1-3) c r s lt gt show ?thesis by simp
qed

text \<open>
  C3, as the code has it: for a non-empty list, of a length that an array can have,
  \<open>totalChecks\<close> is the length of the list, each of the four counters is the number of
  items with that status (so an item with status \<open>error\<close> is in the total and in no
  counter, and the four counters and the items with status \<open>error\<close> or \<open>maintenance\<close>
  add up to the total), and \<open>successRate\<close> is the binary64 value nearest to the rate
  \<open>100 * (operationalCount + degradedCount) / totalChecks\<close> rounded to two decimals,
  unless the rate is a tie, halfway between two neighbouring numbers of two decimals: then
  it is the binary64 value nearest to one of the two neighbours. Three operational, one
  degraded and one failed item give 80.
\<close>

theorem computeStatistics_successRate:
  "(items \<noteq> [] \<and> length items < 2 ^ 32 \<longrightarrow>
      totalChecks (computeStatistics items) = length items \<and>
      operationalCount (computeStatistics items) = count_status Operational items \<and>
      degradedCount (computeStatistics items) = count_status Degraded items \<and>
      failedCount (computeStatistics items) = count_status Failed items \<and>
      validationFailedCount (computeStatistics items) = count_status ValidationFailed items \<and>
      operationalCount (computeStatistics items) + degradedCount (computeStatistics items)
        + failedCount (computeStatistics items) + validationFailedCount (computeStatistics items)
        + count_status Error items + count_status Maintenance items
        = totalChecks (computeStatistics items) \<and>
      (\<not> tie_2dp (100 * of_nat (operationalCount (computeStatistics items)
                                  + degradedCount (computeStatistics items))
                     / of_nat (totalChecks (computeStatistics items))) \<longrightarrow>
         successRate (computeStatistics items)
           = fl (round_2dp (100 * of_nat (operationalCount (computeStatistics items)
                                           + degradedCount (computeStatistics items))
                              / of_nat (totalChecks (computeStatistics items))))) \<and>
      (tie_2dp (100 * of_nat (operationalCount (computeStatistics items)
                                + degradedCount (computeStatistics items))
                   / of_nat (totalChecks (computeStatistics items))) \<longrightarrow>
         successRate (computeStatistics items)
           = fl (round_2dp (100 * of_nat (operationalCount (computeStatistics items)
                                           + degradedCount (computeStatistics items))
                              / of_nat (totalChecks (computeStatistics items)))) \<or>
         successRate (computeStatistics items)
           = fl (round_2dp (100 * of_nat (operationalCount (computeStatistics items)
                                           + degradedCount (computeStatistics items))
                              / of_nat (totalChecks (computeStatistics items))) - 1 / 100))) \<and>
   (\<forall>(a :: 'b CheckResult_scheme) b c d e.
        status a = Operational \<and> status b = Operational \<and> status c = Operational \<and>
        status d = Degraded \<and> status e = Failed \<longrightarrow>
        successRate (computeStatistics [a, b, c, d, e]) = 80)"
proof (intro conjI impI allI)
  assume h: "items \<noteq> [] \<and> length items < 2 ^ 32"
  then have ne: "items \<noteq> []" and len: "length items < 2 ^ 32" by simp_all
  note cs = computeStatistics_nonempty [OF ne]
  let ?s = "count_status Operational items + count_status Degraded items"
  let ?n = "length items"
  let ?R = "100 * of_nat ?s / of_nat ?n :: rat"
  let ?x = "fl (fl (fl (of_nat ?s / of_nat ?n) * 100) * 100)"
  show "totalChecks (computeStatistics items) = length items" by (rule cs)
  show "operationalCount (computeStatistics items) = count_status Operational items" by (rule cs)
  show "degradedCount (computeStatistics items) = count_status Degraded items" by (rule cs)
  show "failedCount (computeStatistics items) = count_status Failed items" by (rule cs)
  show "validationFailedCount (computeStatistics items) = count_status ValidationFailed items"
    by (rule cs)
  show "operationalCount (computeStatistics items) + degradedCount (computeStatistics items)
        + failedCount (computeStatistics items) + validationFailedCount (computeStatistics items)
        + count_status Error items + count_status Maintenance items
        = totalChecks (computeStatistics items)"
    by (simp only: cs(1-5) count_status_total)
  have sn: "?s \<le> ?n" using count_status_total [of items] by linarith
  have n0: "0 < ?n" using ne by simp
  note rnd = successRate_rounding [OF sn n0 len]
  {
    assume "\<not> tie_2dp (100 * of_nat (operationalCount (computeStatistics items)
                                  + degradedCount (computeStatistics items))
                     / of_nat (totalChecks (computeStatistics items)))"
    then have "\<not> tie_2dp ?R" unfolding cs(1-3) .
    from rnd(1) [OF this] have "successRate (computeStatistics items) = fl (round_2dp ?R)"
      unfolding cs(6) round_2dp_def by simp
    then show "successRate (computeStatistics items)
           = fl (round_2dp (100 * of_nat (operationalCount (computeStatistics items)
                                           + degradedCount (computeStatistics items))
                              / of_nat (totalChecks (computeStatistics items))))"
      unfolding cs(1-3) .
  }
  {
    assume "tie_2dp (100 * of_nat (operationalCount (computeStatistics items)
                                + degradedCount (computeStatistics items))
                   / of_nat (totalChecks (computeStatistics items)))"
    then have "tie_2dp ?R" unfolding cs(1-3) .
    from rnd(2) [OF this]
    have "Math_round ?x = Math_round (?R * 100) \<or> Math_round ?x = Math_round (?R * 100) - 1" .
    moreover have "fl (of_int (Math_round (?R * 100) - 1) / 100) = fl (round_2dp ?R - 1 / 100)"
      by (simp add: round_2dp_def diff_divide_distrib)
    ultimately have "successRate (computeStatistics items) = fl (round_2dp ?R) \<or>
        successRate (computeStatistics items) = fl (round_2dp ?R - 1 / 100)"
      unfolding cs(6) round_2dp_def by auto
    then show "successRate (computeStatistics items)
           = fl (round_2dp (100 * of_nat (operationalCount (computeStatistics items)
                                           + degradedCount (computeStatistics items))
                              / of_nat (totalChecks (computeStatistics items)))) \<or>
         successRate (computeStatistics items)
           = fl (round_2dp (100 * of_nat (operationalCount (computeStatistics items)
                                           + degradedCount (computeStatistics items))
                              / of_nat (totalChecks (computeStatistics items))) - 1 / 100)"
      unfolding cs(1-3) .
  }
next
  fix a b c d e :: "'b CheckResult_scheme"
  assume "status a = Operational \<and> status b = Operational \<and> status c = Operational \<and>
        status d = Degraded \<and> status e = Failed"
  then have "count_status Operational [a, b, c, d, e] + count_status Degraded [a, b, c, d, e] = 4"
    by (simp add: count_status_def)
  then show "successRate (computeStatistics [a, b, c, d, e]) = 80"
    using rate_examples(1) by (simp add: computeStatistics_nonempty(6))
qed

theorem computeStatistics_successRate_witness:
  "[sample Operational (Some 120), sample Operational None, sample Operational (Some 80),
    sample Degraded (Some 900), sample Failed None] \<noteq> [] \<and>
   status (sample Operational (Some 120)) = Operational \<and>
   status (sample Degraded (Some 900)) = Degraded \<and>
   status (sample Failed None) = Failed \<and>
   totalChecks (computeStatistics
     [sample Operational (Some 120), sample Operational None, sample Operational (Some 80),
      sample Degraded (Some 900), sample Failed None]) = 5 \<and>
   successRate (computeStatistics
     [sample Operational (Some 120), sample Operational None, sample Operational (Some 80),
      sample Degraded (Some 900), sample Failed None]) = 80 \<and>
   fl (round_2dp (100 * 4 / 5)) = 80 \<and>
   length tie_items = 160 \<and> tie_2dp (100 * 23 / 160) \<and>
   (successRate (computeStatistics tie_items) = fl (1438 / 100) \<or>
    successRate (computeStatistics tie_items) = fl (1437 / 100))"
proof -
  let ?xs = "[sample Operational (Some 120), sample Operational None,
    sample Operational (Some 80), sample Degraded (Some 900), sample Failed None]"
  note t = computeStatistics_successRate [of ?xs]
  have ne: "?xs \<noteq> []" by simp
  have st: "status (sample Operational (Some 120)) = Operational"
    "status (sample Operational None) = Operational"
    "status (sample Operational (Some 80)) = Operational"
    "status (sample Degraded (Some 900)) = Degraded"
    "status (sample Failed None) = Failed"
    by (simp_all add: sample_def)
  have "?xs \<noteq> [] \<and> length ?xs < 2 ^ 32" by simp
  with t have "totalChecks (computeStatistics ?xs) = length ?xs" by blast
  moreover from t st have "successRate (computeStatistics ?xs) = 80" by blast
  moreover have r80: "fl (round_2dp (100 * 4 / 5)) = 80"
    by (simp add: round_2dp_def Math_round_def) code_simp
  note u = computeStatistics_successRate [of tie_items, THEN conjunct1, THEN mp]
  have p: "tie_items \<noteq> [] \<and> length tie_items < 2 ^ 32" by (simp add: tie_items_def)
  have l: "length tie_items = 160" by (simp add: tie_items_def)
  have c: "operationalCount (computeStatistics tie_items) = 23"
    "degradedCount (computeStatistics tie_items) = 0"
    "totalChecks (computeStatistics tie_items) = 160"
    using u [OF p] by (simp_all add: tie_items_def count_status_def sample_def)
  have tie: "tie_2dp (100 * 23 / 160)" by (simp add: tie_2dp_def floor_unique)
  have tie': "tie_2dp (100 * of_nat (23 + 0) / of_nat 160)"
    by (simp add: tie_2dp_def floor_unique)
  have r: "round_2dp (100 * of_nat (23 + 0) / of_nat 160) = 1438 / 100"
    by (simp add: round_2dp_def Math_round_def floor_unique)
  have e: "(1438 / 100 - 1 / 100 :: rat) = 1437 / 100" by simp
  from u [OF p] have "tie_2dp (100 * of_nat (23 + 0) / of_nat 160) \<longrightarrow>
      successRate (computeStatistics tie_items)
        = fl (round_2dp (100 * of_nat (23 + 0) / of_nat 160)) \<or>
      successRate (computeStatistics tie_items)
        = fl (round_2dp (100 * of_nat (23 + 0) / of_nat 160) - 1 / 100)"
    unfolding c by (elim conjE)
  from this [THEN mp, OF tie']
  have either: "successRate (computeStatistics tie_items) = fl (1438 / 100) \<or>
    successRate (computeStatistics tie_items) = fl (1437 / 100)"
    unfolding r e .
  from calculation ne st r80 l tie either show ?thesis by simp
qed


section \<open>Properties of the transient-failure classifier\<close>

lemma Canonicalize_eq_iff: "Canonicalize a = Canonicalize b \<longleftrightarrow> ascii_lower a = ascii_lower b"
  unfolding Canonicalize_def ascii_lower_def
  by (auto simp: word_le_nat_alt unat_sub unat_word_ariths word_unat_eq_iff split: if_splits)

lemma map_Canonicalize_eq_iff:
  "map Canonicalize w = map Canonicalize p \<longleftrightarrow> equal_ignoring_case w p"
  unfolding equal_ignoring_case_def
proof (induction w arbitrary: p)
  case Nil
  show ?case by auto
next
  case (Cons a w)
  show ?case by (cases p) (simp_all add: Cons.IH Canonicalize_eq_iff)
qed

lemma match_literal_Some_iff:
  "match_literal p s = Some r \<longleftrightarrow> (\<exists>w. s = w @ r \<and> equal_ignoring_case w p)"
proof (induction p s rule: match_literal.induct)
  case (1 s)
  show ?case by (auto simp: equal_ignoring_case_def)
next
  case (2 p ps)
  show ?case by (auto simp: equal_ignoring_case_def)
next
  case (3 p ps c cs)
  show ?case
  proof (cases "Canonicalize c = Canonicalize p")
    case True
    then have lc: "ascii_lower c = ascii_lower p" by (simp add: Canonicalize_eq_iff)
    have "(\<exists>w. c # cs = w @ r \<and> equal_ignoring_case w (p # ps)) \<longleftrightarrow>
          (\<exists>w'. cs = w' @ r \<and> equal_ignoring_case w' ps)"
    proof
      assume "\<exists>w. c # cs = w @ r \<and> equal_ignoring_case w (p # ps)"
      then obtain w where w: "c # cs = w @ r" "equal_ignoring_case w (p # ps)" by blast
      from w(2) obtain a w' where aw: "w = a # w'"
        by (cases w) (auto simp: equal_ignoring_case_def)
      with w show "\<exists>w'. cs = w' @ r \<and> equal_ignoring_case w' ps"
        by (auto simp: equal_ignoring_case_def)
    next
      assume "\<exists>w'. cs = w' @ r \<and> equal_ignoring_case w' ps"
      then obtain w' where "cs = w' @ r" "equal_ignoring_case w' ps" by blast
      with lc have "c # cs = (c # w') @ r \<and> equal_ignoring_case (c # w') (p # ps)"
        by (simp add: equal_ignoring_case_def)
      then show "\<exists>w. c # cs = w @ r \<and> equal_ignoring_case w (p # ps)" by blast
    qed
    with True 3 show ?thesis by simp
  next
    case False
    then have lc: "ascii_lower c \<noteq> ascii_lower p" by (simp add: Canonicalize_eq_iff)
    have "\<not> (\<exists>w. c # cs = w @ r \<and> equal_ignoring_case w (p # ps))"
    proof
      assume "\<exists>w. c # cs = w @ r \<and> equal_ignoring_case w (p # ps)"
      then obtain w where w: "c # cs = w @ r" "equal_ignoring_case w (p # ps)" by blast
      from w(2) obtain a w' where aw: "w = a # w'"
        by (cases w) (auto simp: equal_ignoring_case_def)
      with w lc show False by (auto simp: equal_ignoring_case_def)
    qed
    with False show ?thesis by simp
  qed
qed

lemma match_literal_matches_iff:
  "match_literal p s \<noteq> None \<longleftrightarrow> (\<exists>w post. s = w @ post \<and> equal_ignoring_case w p)"
  using match_literal_Some_iff [of p s] by (metis not_Some_eq)

lemma regex_test_iff:
  "regex_test pat s \<longleftrightarrow> (\<exists>pre rest. s = pre @ rest \<and> pat rest \<noteq> None)"
proof (induction s)
  case Nil
  show ?case by simp
next
  case (Cons c cs)
  show ?case
  proof (cases "pat (c # cs) \<noteq> None")
    case True
    then have "c # cs = [] @ (c # cs) \<and> pat (c # cs) \<noteq> None" by simp
    then have "\<exists>pre rest. c # cs = pre @ rest \<and> pat rest \<noteq> None" by blast
    with True show ?thesis by simp
  next
    case False
    have "(\<exists>pre rest. c # cs = pre @ rest \<and> pat rest \<noteq> None) \<longleftrightarrow>
          (\<exists>pre rest. cs = pre @ rest \<and> pat rest \<noteq> None)"
    proof
      assume "\<exists>pre rest. c # cs = pre @ rest \<and> pat rest \<noteq> None"
      then obtain pre rest where pr: "c # cs = pre @ rest" "pat rest \<noteq> None" by blast
      with False obtain pre' where "pre = c # pre'" by (cases pre) auto
      with pr show "\<exists>pre rest. cs = pre @ rest \<and> pat rest \<noteq> None" by auto
    next
      assume "\<exists>pre rest. cs = pre @ rest \<and> pat rest \<noteq> None"
      then obtain pre rest where "cs = pre @ rest" "pat rest \<noteq> None" by blast
      then have "c # cs = (c # pre) @ rest \<and> pat rest \<noteq> None" by simp
      then show "\<exists>pre rest. c # cs = pre @ rest \<and> pat rest \<noteq> None" by blast
    qed
    with False Cons show ?thesis by simp
  qed
qed

lemma REQUEST_ABORTED_PATTERN_test:
  "regex_test REQUEST_ABORTED_PATTERN m \<longleftrightarrow>
     contains_ignoring_case m (js ''request was aborted'')"
proof -
  have "regex_test REQUEST_ABORTED_PATTERN m \<longleftrightarrow>
        (\<exists>pre rest. m = pre @ rest \<and> match_literal (js ''request was aborted'') rest \<noteq> None)"
    by (simp add: regex_test_iff REQUEST_ABORTED_PATTERN_def)
  also have "\<dots> \<longleftrightarrow> (\<exists>pre w post. m = pre @ w @ post \<and>
                 equal_ignoring_case w (js ''request was aborted''))"
    by (simp only: match_literal_matches_iff) blast
  finally show ?thesis by (simp only: contains_ignoring_case_def)
qed

lemma contains_ignoring_case_prefix:
  assumes "contains_ignoring_case m (p @ q)"
  shows "contains_ignoring_case m p"
proof -
  from assms obtain pre w post where m: "m = pre @ w @ post"
    and w: "map ascii_lower w = map ascii_lower p @ map ascii_lower q"
    by (auto simp: contains_ignoring_case_def equal_ignoring_case_def)
  let ?w1 = "take (length p) w" and ?w2 = "drop (length p) w"
  from w have "map ascii_lower ?w1 = map ascii_lower p"
    by (simp add: take_map [symmetric])
  moreover have "m = pre @ ?w1 @ (?w2 @ post)" using m by simp
  ultimately show ?thesis
    unfolding contains_ignoring_case_def equal_ignoring_case_def by blast
qed

text \<open>
  C9: \<open>shouldRetryRequestAborted\<close> is false for an absent and for an empty message; for a
  non-empty message it is true exactly when the message contains, up to the case of ASCII
  letters, the phrase \<open>request was aborted\<close> as a substring, and the optional period of the
  pattern changes nothing: containing the phrase, with or without a period after it, is
  the same condition.
\<close>

theorem shouldRetryRequestAborted_iff:
  "shouldRetryRequestAborted None = False \<and>
   shouldRetryRequestAborted (Some []) = False \<and>
   (m \<noteq> [] \<longrightarrow>
      shouldRetryRequestAborted (Some m) =
        contains_ignoring_case m (js ''request was aborted'')) \<and>
   (m \<noteq> [] \<longrightarrow>
      shouldRetryRequestAborted (Some m) =
        (contains_ignoring_case m (js ''request was aborted'') \<or>
         contains_ignoring_case m (js ''request was aborted.'')))"
proof -
  have dot: "js ''request was aborted.'' = js ''request was aborted'' @ js ''.''"
    by (simp add: js_def)
  have sub: "contains_ignoring_case m (js ''request was aborted.'') \<Longrightarrow>
             contains_ignoring_case m (js ''request was aborted'')"
    unfolding dot by (rule contains_ignoring_case_prefix)
  have "m \<noteq> [] \<Longrightarrow> shouldRetryRequestAborted (Some m) =
          contains_ignoring_case m (js ''request was aborted'')"
    by (simp add: shouldRetryRequestAborted_def REQUEST_ABORTED_PATTERN_test)
  with sub show ?thesis
    by (auto simp: shouldRetryRequestAborted_def)
qed

theorem shouldRetryRequestAborted_iff_witness:
  "js ''Error: Request was ABORTED.'' \<noteq> [] \<and>
   shouldRetryRequestAborted (Some (js ''Error: Request was ABORTED.'')) \<and>
   contains_ignoring_case (js ''Error: Request was ABORTED.'') (js ''request was aborted'') \<and>
   js ''[500] Internal Server Error'' \<noteq> [] \<and>
   \<not> shouldRetryRequestAborted (Some (js ''[500] Internal Server Error'')) \<and>
   \<not> contains_ignoring_case (js ''[500] Internal Server Error'') (js ''request was aborted'')"
proof -
  have ne: "js ''Error: Request was ABORTED.'' \<noteq> []" "js ''[500] Internal Server Error'' \<noteq> []"
    by (simp_all add: js_def)
  have ev: "shouldRetryRequestAborted (Some (js ''Error: Request was ABORTED.''))"
    "\<not> shouldRetryRequestAborted (Some (js ''[500] Internal Server Error''))"
    by (simp_all add: shouldRetryRequestAborted_def REQUEST_ABORTED_PATTERN_def js_def
          Canonicalize_def match_optional_def)
  from shouldRetryRequestAborted_iff [of "js ''Error: Request was ABORTED.''"]
       shouldRetryRequestAborted_iff [of "js ''[500] Internal Server Error''"] ne ev
  show ?thesis by simp
qed


section \<open>Properties of the check runner\<close>

lemma checkWithRetry_from_exit:
  "\<not> attempt \<le> MAX_REQUEST_ABORT_RETRIES \<Longrightarrow>
     checkWithRetry_from ext config attempt st = (Inl unexpected_exit, st)"
  by (subst checkWithRetry_from.simps) simp

lemma checkWithRetry_from_resolved_retry:
  assumes "attempt < MAX_REQUEST_ABORT_RETRIES"
    and "checkWithAiSdk ext config (invocations st) = Resolved result"
    and "status result = Failed" and "shouldRetryRequestAborted (Some (message result))"
  shows "checkWithRetry_from ext config attempt st =
           checkWithRetry_from ext config (attempt + 1) (retried config attempt st)"
  using assms by (subst checkWithRetry_from.simps) (simp add: retried_def Let_def)

lemma checkWithRetry_from_resolved_return:
  assumes "attempt \<le> MAX_REQUEST_ABORT_RETRIES"
    and "checkWithAiSdk ext config (invocations st) = Resolved result"
    and "\<not> (status result = Failed \<and> shouldRetryRequestAborted (Some (message result))
            \<and> attempt < MAX_REQUEST_ABORT_RETRIES)"
  shows "checkWithRetry_from ext config attempt st =
           (Inr result, st\<lparr>invocations := invocations st + 1\<rparr>)"
  using assms by (subst checkWithRetry_from.simps) (auto simp add: Let_def)

lemma checkWithRetry_from_rejected_retry:
  assumes "attempt < MAX_REQUEST_ABORT_RETRIES"
    and "checkWithAiSdk ext config (invocations st) = Rejected error"
    and "getErrorMessage (JSON_parse ext) error = Inr msg"
    and "shouldRetryRequestAborted (Some msg)"
  shows "checkWithRetry_from ext config attempt st =
           checkWithRetry_from ext config (attempt + 1) (retried config attempt st)"
  using assms by (subst checkWithRetry_from.simps) (simp add: retried_def Let_def)

lemma checkWithRetry_from_rejected_return:
  assumes "attempt \<le> MAX_REQUEST_ABORT_RETRIES"
    and "checkWithAiSdk ext config (invocations st) = Rejected error"
    and "getErrorMessage (JSON_parse ext) error = Inr msg"
    and "\<not> (shouldRetryRequestAborted (Some msg) \<and> attempt < MAX_REQUEST_ABORT_RETRIES)"
  shows "checkWithRetry_from ext config attempt st =
           (Inr (error_result ext config msg),
            st\<lparr>invocations := invocations st + 1,
               console := console st @ [logError (failure_context config) error]\<rparr>)"
  using assms by (subst checkWithRetry_from.simps) (auto simp add: Let_def error_result_def)

lemma checkWithRetry_from_rejected_throw:
  assumes "attempt \<le> MAX_REQUEST_ABORT_RETRIES"
    and "checkWithAiSdk ext config (invocations st) = Rejected error"
    and "getErrorMessage (JSON_parse ext) error = Inl thrown"
  shows "checkWithRetry_from ext config attempt st =
           (Inl thrown, st\<lparr>invocations := invocations st + 1\<rparr>)"
  using assms by (subst checkWithRetry_from.simps) (simp add: Let_def)

lemma ToString_throws:
  "ToString v = Inl thrown \<Longrightarrow> thrown = cannot_convert"
  "Array_join xs = Inl thrown \<Longrightarrow> thrown = cannot_convert"
  by (induction v and xs rule: ToString_Array_join.induct)
     (auto split: if_splits sum.splits)

lemma getErrorMessage_throws:
  "getErrorMessage jp e = Inl thrown \<Longrightarrow> thrown = cannot_convert"
  by (cases e)
     (auto simp: extracted_message_def Let_def ToString_throws
           split: option.splits if_splits sum.splits)

lemma cannot_convert_not_exit: "cannot_convert \<noteq> unexpected_exit"
  by (simp add: cannot_convert_def unexpected_exit_def js_def)

lemma checkWithRetry_from_settles:
  "attempt \<le> MAX_REQUEST_ABORT_RETRIES \<Longrightarrow>
     ((\<exists>r. fst (checkWithRetry_from ext config attempt st) = Inr r) \<or>
      fst (checkWithRetry_from ext config attempt st) = Inl cannot_convert) \<and>
     invocations st < invocations (snd (checkWithRetry_from ext config attempt st)) \<and>
     invocations (snd (checkWithRetry_from ext config attempt st)) + attempt
       \<le> invocations st + MAX_REQUEST_ABORT_RETRIES + 1"
proof (induction ext config attempt st rule: checkWithRetry_from.induct)
  case (1 ext config attempt st)
  have upd: "retried config attempt st =
          (st\<lparr>invocations := invocations st + 1\<rparr>)
                     \<lparr>console := console (st\<lparr>invocations := invocations st + 1\<rparr>)
                         @ [retry_warning config attempt]\<rparr>"
    by (simp add: retried_def)
  have inv: "invocations (retried config attempt st) = invocations st + 1"
    by (simp add: retried_def)
  let ?next = "checkWithRetry_from ext config (attempt + 1) (retried config attempt st)"
  let ?step = "((\<exists>r. fst ?next = Inr r) \<or> fst ?next = Inl cannot_convert) \<and>
            invocations (retried config attempt st) < invocations (snd ?next) \<and>
            invocations (snd ?next) + (attempt + 1)
              \<le> invocations (retried config attempt st) + MAX_REQUEST_ABORT_RETRIES + 1"
  show ?case
  proof (cases "checkWithAiSdk ext config (invocations st)")
    case (Resolved result)
    show ?thesis
    proof (cases "status result = Failed \<and> shouldRetryRequestAborted (Some (message result))
            \<and> attempt < MAX_REQUEST_ABORT_RETRIES")
      case True
      then have le: "attempt + 1 \<le> MAX_REQUEST_ABORT_RETRIES" by simp
      have eq: "checkWithRetry_from ext config attempt st = ?next"
        using checkWithRetry_from_resolved_retry [of attempt ext config st result] Resolved True
        by simp
      from "1.IH"(1) [OF "1.prems" refl Resolved] True le
      have ?step by (simp add: upd)
      then show ?thesis unfolding eq inv by auto
    next
      case False
      then show ?thesis
        using checkWithRetry_from_resolved_return [OF "1.prems" Resolved] "1.prems" by simp
    qed
  next
    case (Rejected error)
    show ?thesis
    proof (cases "getErrorMessage (JSON_parse ext) error")
      case (Inl thrown)
      then have "thrown = cannot_convert" by (rule getErrorMessage_throws)
      then show ?thesis
        using checkWithRetry_from_rejected_throw [OF "1.prems" Rejected Inl] "1.prems" by simp
    next
      case (Inr msg)
      show ?thesis
      proof (cases "shouldRetryRequestAborted (Some msg)
              \<and> attempt < MAX_REQUEST_ABORT_RETRIES")
        case True
        then have le: "attempt + 1 \<le> MAX_REQUEST_ABORT_RETRIES" by simp
        have eq: "checkWithRetry_from ext config attempt st = ?next"
          using checkWithRetry_from_rejected_retry [of attempt ext config st error msg]
            Rejected Inr True
          by simp
        from "1.IH"(2) [OF "1.prems" refl Rejected Inr] True le
        have ?step by (simp add: upd)
        then show ?thesis unfolding eq inv by auto
      next
        case False
        then show ?thesis
          using checkWithRetry_from_rejected_return [OF "1.prems" Rejected Inr] "1.prems"
          by simp
      qed
    qed
  qed
qed

lemma unprintable_message:
  "getErrorMessage parse_unprintable unprintable_error = Inl cannot_convert"
  by (simp add: unprintable_error_def extracted_message_def extractErrorFromResponseBody_def
        parse_and_read_def parse_unprintable_def read_data_message_def unprintable_body_def
        sse_data_here_def js_def Let_def)

lemma unprintable_run:
  "checkWithRetry rejecting_unprintable config =
     (Inl cannot_convert, \<lparr>invocations = 1, console = []\<rparr>)"
proof -
  have "checkWithRetry_from rejecting_unprintable config 0 run_start =
          (Inl cannot_convert, run_start\<lparr>invocations := invocations run_start + 1\<rparr>)"
    by (rule checkWithRetry_from_rejected_throw [where error = unprintable_error])
       (simp_all add: rejecting_unprintable_def unprintable_message)
  then show ?thesis by (simp add: checkWithRetry_def run_start_def)
qed

text \<open>
  C8: the \<open>throw\<close> after the loop of \<open>checkWithRetry\<close> is unreachable, but not every run
  ends with an iteration that returns. However the provider check settles at each
  invocation, the promise of \<open>checkWithRetry\<close> does not reject with
  \<open>Unexpected retry loop exit\<close>: it resolves with a result or rejects with the
  \<open>TypeError\<close> that left \<open>getErrorMessage\<close> in the \<open>catch\<close> block, after at least one
  and at most three invocations; and an iteration with
  \<open>attempt = MAX_REQUEST_ABORT_RETRIES\<close> ends the run after its one invocation, from any
  state. When the provider check rejects with an error whose response body has an object
  with a key \<open>toString\<close> as its \<open>message\<close>, no iteration returns: the first one throws.
\<close>

theorem checkWithRetry_no_fallthrough:
  "fst (checkWithRetry ext config) \<noteq> Inl unexpected_exit \<and>
   ((\<exists>r. fst (checkWithRetry ext config) = Inr r) \<or>
    fst (checkWithRetry ext config) = Inl cannot_convert) \<and>
   1 \<le> invocations (snd (checkWithRetry ext config)) \<and>
   invocations (snd (checkWithRetry ext config)) \<le> MAX_REQUEST_ABORT_RETRIES + 1 \<and>
   fst (checkWithRetry_from ext config MAX_REQUEST_ABORT_RETRIES st) \<noteq> Inl unexpected_exit \<and>
   invocations (snd (checkWithRetry_from ext config MAX_REQUEST_ABORT_RETRIES st))
     = invocations st + 1 \<and>
   checkWithAiSdk rejecting_unprintable example_config 0 = Rejected unprintable_error \<and>
   checkWithRetry rejecting_unprintable example_config =
     (Inl cannot_convert, \<lparr>invocations = 1, console = []\<rparr>)"
proof -
  have "0 \<le> MAX_REQUEST_ABORT_RETRIES" by simp
  from checkWithRetry_from_settles [OF this, of ext config run_start]
  have a: "((\<exists>r. fst (checkWithRetry ext config) = Inr r) \<or>
            fst (checkWithRetry ext config) = Inl cannot_convert) \<and>
        1 \<le> invocations (snd (checkWithRetry ext config)) \<and>
        invocations (snd (checkWithRetry ext config)) \<le> MAX_REQUEST_ABORT_RETRIES + 1"
    by (simp add: checkWithRetry_def run_start_def)
  then have b: "fst (checkWithRetry ext config) \<noteq> Inl unexpected_exit"
    using cannot_convert_not_exit by auto
  from checkWithRetry_from_settles [of MAX_REQUEST_ABORT_RETRIES ext config st]
  have c: "((\<exists>r. fst (checkWithRetry_from ext config MAX_REQUEST_ABORT_RETRIES st) = Inr r) \<or>
            fst (checkWithRetry_from ext config MAX_REQUEST_ABORT_RETRIES st)
              = Inl cannot_convert) \<and>
        invocations (snd (checkWithRetry_from ext config MAX_REQUEST_ABORT_RETRIES st))
          = invocations st + 1"
    by auto
  then have d: "fst (checkWithRetry_from ext config MAX_REQUEST_ABORT_RETRIES st)
                  \<noteq> Inl unexpected_exit"
    using cannot_convert_not_exit by auto
  have e: "checkWithAiSdk rejecting_unprintable example_config 0 = Rejected unprintable_error"
    by (simp add: rejecting_unprintable_def)
  from a b c d e unprintable_run show ?thesis by simp
qed

lemma shouldRetry_prepend:
  assumes "shouldRetryRequestAborted (Some m)"
  shows "shouldRetryRequestAborted (Some (p @ m))"
proof -
  from assms have ne: "m \<noteq> []" and c: "contains_ignoring_case m (js ''request was aborted'')"
    by (auto simp: shouldRetryRequestAborted_def REQUEST_ABORTED_PATTERN_test split: if_splits)
  from c obtain pre w post where "m = pre @ w @ post"
    "equal_ignoring_case w (js ''request was aborted'')"
    unfolding contains_ignoring_case_def by blast
  then have "p @ m = (p @ pre) @ w @ post \<and> equal_ignoring_case w (js ''request was aborted'')"
    by simp
  then have "contains_ignoring_case (p @ m) (js ''request was aborted'')"
    unfolding contains_ignoring_case_def by blast
  with ne show ?thesis
    by (simp add: shouldRetryRequestAborted_def REQUEST_ABORTED_PATTERN_test)
qed

lemma checkWithRetry_three_rejections:
  assumes r0: "checkWithAiSdk ext config 0 = Rejected e0"
    and r1: "checkWithAiSdk ext config 1 = Rejected e1"
    and r2: "checkWithAiSdk ext config 2 = Rejected e2"
    and g0: "getErrorMessage (JSON_parse ext) e0 = Inr m0"
    and g1: "getErrorMessage (JSON_parse ext) e1 = Inr m1"
    and g2: "getErrorMessage (JSON_parse ext) e2 = Inr m2"
    and m0: "shouldRetryRequestAborted (Some m0)"
    and m1: "shouldRetryRequestAborted (Some m1)"
  shows "checkWithRetry ext config =
           (Inr (error_result ext config m2),
            \<lparr>invocations = 3,
             console = [retry_warning config 0, retry_warning config 1,
                        logError (failure_context config) e2]\<rparr>)"
proof -
  let ?s1 = "retried config 0 run_start"
  let ?s2 = "retried config 1 ?s1"
  have i0: "invocations run_start = 0" and i1: "invocations ?s1 = 1" and i2: "invocations ?s2 = 2"
    by (simp_all add: run_start_def retried_def)
  have "checkWithRetry ext config = checkWithRetry_from ext config 1 ?s1"
    using checkWithRetry_from_rejected_retry [of 0 ext config run_start e0 m0] r0 g0 m0 i0
    by (simp add: MAX_REQUEST_ABORT_RETRIES_def checkWithRetry_def)
  also have "\<dots> = checkWithRetry_from ext config 2 ?s2"
    using checkWithRetry_from_rejected_retry [of 1 ext config ?s1 e1 m1] r1 g1 m1 i1
    by (simp add: MAX_REQUEST_ABORT_RETRIES_def numeral_2_eq_2)
  also have "\<dots> = (Inr (error_result ext config m2),
            ?s2\<lparr>invocations := invocations ?s2 + 1,
               console := console ?s2 @ [logError (failure_context config) e2]\<rparr>)"
    using checkWithRetry_from_rejected_return [of 2 ext config ?s2 e2 m2] r2 g2 i2
    by (simp add: MAX_REQUEST_ABORT_RETRIES_def numeral_2_eq_2)
  finally show ?thesis by (simp add: run_start_def retried_def numeral_3_eq_3)
qed

lemma getErrorMessage_no_responseBody:
  "getErrorMessage jp (JError nm msg st sc None ps) =
     Inr (if has_statusCode sc then bracketed_statusCode sc @ msg else msg)"
  by (simp add: extracted_message_def)

lemma shouldRetry_aborted_text: "shouldRetryRequestAborted (Some (js ''Request was aborted''))"
  by (simp add: shouldRetryRequestAborted_def REQUEST_ABORTED_PATTERN_def js_def
        Canonicalize_def match_optional_def)

text \<open>
  C1: \<open>checkWithRetry\<close> retries an aborted request twice, but it does not always resolve.
  An error whose message matches is read as one from which \<open>getErrorMessage\<close> extracts a
  message that matches the request-aborted pattern: that message is what the runner
  classifies. If the provider check rejects at the first three invocations,
  \<open>getErrorMessage\<close> returns a message for each of the three errors, and the messages of
  the first and of the second match the pattern, then the check is invoked exactly three
  times, two retry warnings and one error line are logged, and the result has status
  \<open>error\<close>, no latency, no ping latency, the identity of the configuration, and the
  message extracted from the third error. For an error without a response body, and for a
  thrown string, \<open>getErrorMessage\<close> returns a message, which matches the pattern whenever
  the error's own message does. But when the provider check rejects, at every invocation,
  with an error whose own message is \<open>Request was aborted\<close> and whose response body has an
  object with a key \<open>toString\<close> as its \<open>message\<close>, \<open>getErrorMessage\<close> throws a
  \<open>TypeError\<close>, and the promise of \<open>checkWithRetry\<close> rejects with it after one
  invocation, with nothing logged.
\<close>

theorem checkWithRetry_aborted_every_attempt:
  "(checkWithAiSdk ext config 0 = Rejected e0 \<and>
    getErrorMessage (JSON_parse ext) e0 = Inr m0 \<and> shouldRetryRequestAborted (Some m0) \<and>
    checkWithAiSdk ext config 1 = Rejected e1 \<and>
    getErrorMessage (JSON_parse ext) e1 = Inr m1 \<and> shouldRetryRequestAborted (Some m1) \<and>
    checkWithAiSdk ext config 2 = Rejected e2 \<and>
    getErrorMessage (JSON_parse ext) e2 = Inr m2 \<longrightarrow>
      invocations (snd (checkWithRetry ext config)) = 3 \<and>
      (\<exists>r. fst (checkWithRetry ext config) = Inr r \<and>
           status r = Error \<and> latencyMs r = None \<and> pingLatencyMs r = None \<and>
           message r = m2 \<and>
           rid r = cfg_id config \<and> name r = cfg_name config \<and> rtype r = cfg_type config \<and>
           endpoint r = cfg_endpoint config \<and> model r = cfg_model config \<and>
           checkedAt r = toISOString_now ext) \<and>
      console (snd (checkWithRetry ext config)) =
        [retry_warning config 0, retry_warning config 1,
         logError (failure_context config) e2]) \<and>
   (shouldRetryRequestAborted (Some msg) \<longrightarrow>
      (\<exists>m. getErrorMessage jp (JError nm msg st sc None ps) = Inr m \<and>
           shouldRetryRequestAborted (Some m)) \<and>
      getErrorMessage jp (JString msg) = Inr msg) \<and>
   checkWithAiSdk rejecting_unprintable example_config k = Rejected unprintable_error \<and>
   get_prop unprintable_error (js ''message'') = Some (JString (js ''Request was aborted'')) \<and>
   shouldRetryRequestAborted (Some (js ''Request was aborted'')) \<and>
   getErrorMessage (JSON_parse rejecting_unprintable) unprintable_error = Inl cannot_convert \<and>
   checkWithRetry rejecting_unprintable example_config =
     (Inl cannot_convert, \<lparr>invocations = 1, console = []\<rparr>)"
proof (intro conjI impI)
  assume h: "checkWithAiSdk ext config 0 = Rejected e0 \<and>
    getErrorMessage (JSON_parse ext) e0 = Inr m0 \<and> shouldRetryRequestAborted (Some m0) \<and>
    checkWithAiSdk ext config 1 = Rejected e1 \<and>
    getErrorMessage (JSON_parse ext) e1 = Inr m1 \<and> shouldRetryRequestAborted (Some m1) \<and>
    checkWithAiSdk ext config 2 = Rejected e2 \<and>
    getErrorMessage (JSON_parse ext) e2 = Inr m2"
  then have eq: "checkWithRetry ext config =
           (Inr (error_result ext config m2),
            \<lparr>invocations = 3,
             console = [retry_warning config 0, retry_warning config 1,
                        logError (failure_context config) e2]\<rparr>)"
    using checkWithRetry_three_rejections [of ext config e0 e1 e2 m0 m1 m2] by blast
  show "invocations (snd (checkWithRetry ext config)) = 3" by (simp add: eq)
  show "console (snd (checkWithRetry ext config)) =
        [retry_warning config 0, retry_warning config 1,
         logError (failure_context config) e2]" by (simp add: eq)
  show "\<exists>r. fst (checkWithRetry ext config) = Inr r \<and>
           status r = Error \<and> latencyMs r = None \<and> pingLatencyMs r = None \<and>
           message r = m2 \<and>
           rid r = cfg_id config \<and> name r = cfg_name config \<and> rtype r = cfg_type config \<and>
           endpoint r = cfg_endpoint config \<and> model r = cfg_model config \<and>
           checkedAt r = toISOString_now ext"
    by (simp add: eq error_result_def)
next
  assume m: "shouldRetryRequestAborted (Some msg)"
  show "\<exists>m. getErrorMessage jp (JError nm msg st sc None ps) = Inr m \<and>
           shouldRetryRequestAborted (Some m)"
    unfolding getErrorMessage_no_responseBody
    using m shouldRetry_prepend [OF m, of "bracketed_statusCode sc"] by simp
  show "getErrorMessage jp (JString msg) = Inr msg" by simp
next
  show "checkWithAiSdk rejecting_unprintable example_config k = Rejected unprintable_error"
    by (simp add: rejecting_unprintable_def)
  show "get_prop unprintable_error (js ''message'') = Some (JString (js ''Request was aborted''))"
    by (simp add: unprintable_error_def js_def)
  show "shouldRetryRequestAborted (Some (js ''Request was aborted''))"
    by (rule shouldRetry_aborted_text)
  show "getErrorMessage (JSON_parse rejecting_unprintable) unprintable_error = Inl cannot_convert"
    using unprintable_message by (simp add: rejecting_unprintable_def)
  show "checkWithRetry rejecting_unprintable example_config =
     (Inl cannot_convert, \<lparr>invocations = 1, console = []\<rparr>)"
    by (rule unprintable_run)
qed

theorem checkWithRetry_aborted_every_attempt_witness:
  "checkWithAiSdk (always_rejecting aborted_error) example_config 0 = Rejected aborted_error \<and>
   checkWithAiSdk (always_rejecting aborted_error) example_config 1 = Rejected aborted_error \<and>
   checkWithAiSdk (always_rejecting aborted_error) example_config 2 = Rejected aborted_error \<and>
   getErrorMessage (JSON_parse (always_rejecting aborted_error)) aborted_error
     = Inr (js ''Request was aborted'') \<and>
   shouldRetryRequestAborted (Some (js ''Request was aborted'')) \<and>
   invocations (snd (checkWithRetry (always_rejecting aborted_error) example_config)) = 3 \<and>
   (\<exists>r. fst (checkWithRetry (always_rejecting aborted_error) example_config) = Inr r \<and>
        status r = Error \<and> latencyMs r = None \<and> pingLatencyMs r = None \<and>
        message r = js ''Request was aborted'') \<and>
   (\<exists>m. getErrorMessage (\<lambda>text. None)
          (JError (js ''Error'') (js ''Request was aborted'') None (Some 502) None []) = Inr m \<and>
        shouldRetryRequestAborted (Some m))"
proof -
  let ?ext = "always_rejecting aborted_error"
  have c: "checkWithAiSdk ?ext example_config k = Rejected aborted_error" for k
    by (simp add: always_rejecting_def)
  have g: "getErrorMessage (JSON_parse ?ext) aborted_error = Inr (js ''Request was aborted'')"
    by (simp add: aborted_error_def extracted_message_def has_statusCode_def)
  note m = shouldRetry_aborted_text
  note t = checkWithRetry_aborted_every_attempt
         [where ext = ?ext and config = example_config and ?e0.0 = aborted_error
            and ?e1.0 = aborted_error and ?e2.0 = aborted_error
            and ?m0.0 = "js ''Request was aborted''" and ?m1.0 = "js ''Request was aborted''"
            and ?m2.0 = "js ''Request was aborted''" and msg = "js ''Request was aborted''"
            and jp = "\<lambda>text. None" and nm = "js ''Error''" and st = None and sc = "Some 502"
            and ps = "[]" and k = 0]
  have prem: "checkWithAiSdk ?ext example_config 0 = Rejected aborted_error \<and>
    getErrorMessage (JSON_parse ?ext) aborted_error = Inr (js ''Request was aborted'') \<and>
    shouldRetryRequestAborted (Some (js ''Request was aborted'')) \<and>
    checkWithAiSdk ?ext example_config 1 = Rejected aborted_error \<and>
    getErrorMessage (JSON_parse ?ext) aborted_error = Inr (js ''Request was aborted'') \<and>
    shouldRetryRequestAborted (Some (js ''Request was aborted'')) \<and>
    checkWithAiSdk ?ext example_config 2 = Rejected aborted_error \<and>
    getErrorMessage (JSON_parse ?ext) aborted_error = Inr (js ''Request was aborted'')"
    using c g m by simp
  from t [THEN conjunct1, THEN mp, OF prem]
  have run: "invocations (snd (checkWithRetry ?ext example_config)) = 3"
    "\<exists>r. fst (checkWithRetry ?ext example_config) = Inr r \<and>
        status r = Error \<and> latencyMs r = None \<and> pingLatencyMs r = None \<and>
        message r = js ''Request was aborted''"
    by auto
  from t [THEN conjunct2, THEN conjunct1, THEN mp, OF m]
  have own: "\<exists>m. getErrorMessage (\<lambda>text. None)
          (JError (js ''Error'') (js ''Request was aborted'') None (Some 502) None []) = Inr m \<and>
        shouldRetryRequestAborted (Some m)"
    by (rule conjunct1)
  from c [of 0] c [of 1] c [of 2] g m run own show ?thesis by (intro conjI)
qed


section \<open>Properties of error messages and sanitization\<close>















section \<open>Properties of the response validator\<close>

lemma is_number_token_Cons:
  "is_number_token (c # cs) \<longleftrightarrow>
     (c = 0x2D \<and> cs \<noteq> [] \<and> list_all is_digit cs) \<or> (is_digit c \<and> list_all is_digit cs)"
  by (simp add: is_number_token_def)

lemma is_number_token_Nil [simp]: "\<not> is_number_token []"
  by (simp add: is_number_token_def)

lemma minus_not_digit [simp]: "\<not> is_digit 0x2D"
  by (simp add: is_digit_def)

lemma is_number_token_tail_digits:
  "is_number_token (a @ x # b) \<Longrightarrow> a \<noteq> [] \<Longrightarrow> is_digit x"
  by (cases a) (auto simp: is_number_token_Cons)

lemma takeWhile_digits_prefix:
  "prefix ds cs \<Longrightarrow> list_all is_digit ds \<Longrightarrow> prefix ds (takeWhile is_digit cs)"
  by (auto simp: prefix_def list_all_iff takeWhile_append2)

lemma number_here_Some:
  assumes "number_here s = Some (m, rest)"
  shows "s = m @ rest" and "is_number_token m" and "rest = [] \<or> \<not> is_digit (hd rest)"
proof -
  from assms obtain c cs where s: "s = c # cs" by (cases s) (auto simp: number_here_def)
  have nd: "dropWhile is_digit xs = [] \<or> \<not> is_digit (hd (dropWhile is_digit xs))" for xs
    using hd_dropWhile [of is_digit xs] by blast
  have all: "list_all is_digit (takeWhile is_digit xs)" for xs
    by (simp add: list_all_iff) (meson set_takeWhileD)
  show "s = m @ rest"
  proof (cases "c = 0x2D \<and> takeWhile is_digit cs \<noteq> []")
    case True
    with assms s have "m = c # takeWhile is_digit cs" "rest = dropWhile is_digit cs"
      by (simp_all add: number_here_def)
    with s show ?thesis by (simp only: append_Cons takeWhile_dropWhile_id)
  next
    case False
    with assms s have "m = takeWhile is_digit (c # cs)" "rest = dropWhile is_digit (c # cs)"
      by (auto simp: number_here_def split: if_splits)
    with s show ?thesis by (simp only: takeWhile_dropWhile_id)
  qed
  show "is_number_token m"
  proof (cases "c = 0x2D \<and> takeWhile is_digit cs \<noteq> []")
    case True
    with assms s have "m = c # takeWhile is_digit cs" by (simp add: number_here_def)
    with True all [of cs] show ?thesis by (simp add: is_number_token_Cons)
  next
    case False
    with assms s have "is_digit c" and "m = c # takeWhile is_digit cs"
      by (auto simp: number_here_def split: if_splits)
    with all [of cs] show ?thesis by (simp add: is_number_token_Cons)
  qed
  show "rest = [] \<or> \<not> is_digit (hd rest)"
    using assms s nd [of cs] nd [of "c # cs"]
    by (auto simp: number_here_def split: if_splits)
qed

lemma number_here_None:
  assumes "number_here s = None" and "s = w @ q"
  shows "\<not> is_number_token w"
proof
  assume t: "is_number_token w"
  then obtain x xs where w: "w = x # xs" by (cases w) auto
  with assms(2) have s: "s = x # (xs @ q)" by simp
  from t w consider "x = 0x2D" "xs \<noteq> []" "list_all is_digit xs" | "is_digit x"
    by (auto simp: is_number_token_Cons)
  then show False
  proof cases
    case 1
    then obtain y ys where "xs = y # ys" "is_digit y" by (cases xs) auto
    with 1 assms(1) s show False by (simp add: number_here_def)
  next
    case 2
    with assms(1) s show False by (auto simp: number_here_def split: if_splits)
  qed
qed

lemma number_here_greedy:
  assumes "number_here s = Some (m, rest)" and "s = w @ q" and "is_number_token w"
  shows "prefix w m"
proof -
  from assms(3) obtain x xs where w: "w = x # xs" by (cases w) auto
  with assms(2) have s: "s = x # (xs @ q)" by simp
  have pre: "prefix xs (xs @ q)" by simp
  from assms(3) w consider "x = 0x2D" "xs \<noteq> []" "list_all is_digit xs"
    | "is_digit x" "list_all is_digit xs"
    by (auto simp: is_number_token_Cons)
  then show ?thesis
  proof cases
    case 1
    from takeWhile_digits_prefix [OF pre 1(3)] 1(2)
    have "prefix xs (takeWhile is_digit (xs @ q))" "takeWhile is_digit (xs @ q) \<noteq> []"
      by auto
    with assms(1) s 1(1) w show ?thesis by (auto simp: number_here_def)
  next
    case 2
    then have "list_all is_digit (x # xs)" by simp
    from takeWhile_digits_prefix [OF _ this, of "x # (xs @ q)"]
    have "prefix (x # xs) (takeWhile is_digit (x # (xs @ q)))" by simp
    with assms(1) s 2(1) w show ?thesis
      by (auto simp: number_here_def split: if_splits)
  qed
qed


lemma boundary_ok_Nil [simp]: "boundary_ok [] r"
  by (simp add: boundary_ok_def)

lemma boundary_skip:
  assumes "number_here (c # cs) = None"
  shows "boundary_ok (p @ [c]) cs"
proof (cases cs)
  case Nil
  then show ?thesis by (simp add: boundary_ok_def)
next
  case (Cons y ys)
  with assms show ?thesis
    by (auto simp: boundary_ok_def number_here_def split: if_splits)
qed

lemma boundary_match:
  assumes "number_here r = Some (m, rest)"
  shows "boundary_ok (p @ m) rest"
  using number_here_Some(3) [OF assms] by (auto simp: boundary_ok_def)

lemma found_is_maximal:
  assumes nh: "number_here r = Some (m, rest)" and bd: "boundary_ok p r"
  shows "maximal_number_token p m rest"
  unfolding maximal_number_token_def
proof (intro conjI allI impI)
  show tm: "is_number_token m" by (rule number_here_Some(2) [OF nh])
  then obtain x m' where m: "m = x # m'" by (cases m) auto
  have r: "r = x # m' @ rest" using number_here_Some(1) [OF nh] m by simp
  fix a b
  assume h: "suffix a p \<and> prefix b rest \<and> is_number_token (a @ m @ b)"
  show "a = []"
  proof (rule ccontr)
    assume "a \<noteq> []"
    then obtain a' z where a: "a = a' @ [z]" by (cases a rule: rev_cases) auto
    with h have pz: "p \<noteq> [] \<and> last p = z" by (auto simp: suffix_def)
    from h a m have t: "is_number_token ((a' @ [z]) @ x # (m' @ b))" by simp
    then have dx: "is_digit x" by (rule is_number_token_tail_digits) simp
    from h a m have "is_number_token (a' @ z # (x # m' @ b))" by simp
    then have "is_digit z \<or> z = 0x2D"
      by (cases a') (auto simp: is_number_token_Cons)
    with pz dx r bd show False by (simp add: boundary_ok_def)
  qed
  show "b = []"
  proof (rule ccontr)
    assume "b \<noteq> []"
    then obtain y b' where b: "b = y # b'" by (cases b) auto
    with h have ry: "rest \<noteq> [] \<and> hd rest = y" by (auto simp: prefix_def)
    from h b m have "is_number_token ((a @ x # m') @ y # b')" by simp
    then have "is_digit y" by (rule is_number_token_tail_digits) simp
    with ry number_here_Some(3) [OF nh] show False by simp
  qed
qed

lemma occurrences_from_prefix:
  "(p', w, q) \<in> set (occurrences_from p r) \<Longrightarrow> prefix p p'"
proof (induction p r rule: occurrences_from.induct)
  case (1 p)
  then show ?case by simp
next
  case (2 p c cs)
  show ?case
  proof (cases "number_here (c # cs)")
    case None
    with 2 have "prefix (p @ [c]) p'" by simp
    then show ?thesis by (rule append_prefixD)
  next
    case (Some mr)
    then obtain m rest where mr: "number_here (c # cs) = Some (m, rest)" by (cases mr) simp
    with "2.prems" consider "p' = p" | "(p', w, q) \<in> set (occurrences_from (p @ m) rest)"
      by auto
    then show ?thesis
    proof cases
      case 1
      then show ?thesis by simp
    next
      case 2
      with "2.IH"(2) [OF mr refl] have "prefix (p @ m) p'" by simp
      then show ?thesis by (rule append_prefixD)
    qed
  qed
qed

lemma occurrences_from_sound:
  "boundary_ok p r \<Longrightarrow> (p', w, q) \<in> set (occurrences_from p r) \<Longrightarrow>
     p' @ w @ q = p @ r \<and> maximal_number_token p' w q"
proof (induction p r rule: occurrences_from.induct)
  case (1 p)
  then show ?case by simp
next
  case (2 p c cs)
  show ?case
  proof (cases "number_here (c # cs)")
    case None
    with "2.prems" have "(p', w, q) \<in> set (occurrences_from (p @ [c]) cs)" by simp
    with "2.IH"(1) [OF None boundary_skip [OF None]] show ?thesis by simp
  next
    case (Some mr)
    then obtain m rest where mr: "number_here (c # cs) = Some (m, rest)" by (cases mr) simp
    with "2.prems" consider "(p', w, q) = (p, m, rest)"
      | "(p', w, q) \<in> set (occurrences_from (p @ m) rest)"
      by auto
    then show ?thesis
    proof cases
      case 1
      with found_is_maximal [OF mr "2.prems"(1)] number_here_Some(1) [OF mr]
      show ?thesis by simp
    next
      case 2
      with "2.IH"(2) [OF mr refl boundary_match [OF mr]] number_here_Some(1) [OF mr]
      show ?thesis by simp
    qed
  qed
qed


lemma digits_prefix_stops:
  assumes "list_all is_digit w" and "prefix w (u @ rest)" and "rest = [] \<or> \<not> is_digit (hd rest)"
  shows "prefix w u"
proof (rule ccontr)
  assume n: "\<not> prefix w u"
  from assms(2) obtain t where t: "u @ rest = w @ t" by (auto simp: prefix_def)
  then obtain v where "(u = w @ v \<and> v @ rest = t) \<or> (u @ v = w \<and> rest = v @ t)"
    by (auto simp: append_eq_append_conv2)
  with n have v: "u @ v = w" "rest = v @ t" by (auto simp: prefix_def)
  with n have "v \<noteq> []" by auto
  then obtain y v' where y: "v = y # v'" by (cases v) auto
  with v assms(1) have "is_digit y" by auto
  with v y assms(3) show False by simp
qed

lemma token_from_digit:
  assumes "is_number_token (x # xs)" and "is_digit x"
  shows "list_all is_digit (x # xs)"
  using assms by (auto simp: is_number_token_Cons)

lemma occurrences_from_complete:
  "boundary_ok p r \<Longrightarrow> p' @ w @ q = p @ r \<Longrightarrow> maximal_number_token p' w q \<Longrightarrow>
     prefix p p' \<Longrightarrow> (p', w, q) \<in> set (occurrences_from p r)"
proof (induction p r rule: occurrences_from.induct)
  case (1 p)
  then have "w = []" by (auto simp: prefix_def)
  with "1.prems"(3) show ?case by (simp add: maximal_number_token_def)
next
  case (2 p c cs)
  from "2.prems"(4) obtain d where d: "p' = p @ d" by (auto simp: prefix_def)
  with "2.prems"(2) have split: "d @ w @ q = c # cs" by simp
  from "2.prems"(3) have tw: "is_number_token w" by (simp add: maximal_number_token_def)
  show ?case
  proof (cases "number_here (c # cs)")
    case None
    show ?thesis
    proof (cases d)
      case Nil
      with split have "c # cs = w @ q" by simp
      from number_here_None [OF None this] tw show ?thesis by simp
    next
      case (Cons x d')
      with split d have "p' @ w @ q = (p @ [c]) @ cs" "prefix (p @ [c]) p'" by auto
      from "2.IH"(1) [OF None boundary_skip [OF None] this(1) "2.prems"(3) this(2)] None
      show ?thesis by simp
    qed
  next
    case (Some mr)
    then obtain m rest where mr: "number_here (c # cs) = Some (m, rest)" by (cases mr) simp
    note facts = number_here_Some [OF mr]
    from split facts(1) have eq: "d @ (w @ q) = m @ rest" by simp
    then obtain u where "(d = m @ u \<and> u @ (w @ q) = rest) \<or> (d @ u = m \<and> w @ q = u @ rest)"
      by (auto simp: append_eq_append_conv2)
    then consider (after) u where "d = m @ u" "u @ w @ q = rest"
      | (start) "d = []" "w @ q = m @ rest"
      | (inside) u where "d \<noteq> []" "u \<noteq> []" "d @ u = m" "w @ q = u @ rest"
      by (cases "d = []"; cases "u = []") auto
    then show ?thesis
    proof cases
      case after
      with d facts(1) have "p' @ w @ q = (p @ m) @ rest" "prefix (p @ m) p'" by auto
      from "2.IH"(2) [OF mr refl boundary_match [OF mr] this(1) "2.prems"(3) this(2)] mr
      show ?thesis by simp
    next
      case start
      from start(2) facts(1) have "c # cs = w @ q" by simp
      from number_here_greedy [OF mr this tw] obtain b where b: "m = w @ b"
        by (auto simp: prefix_def)
      with start(2) have q: "q = b @ rest" by simp
      have "suffix [] p' \<and> prefix b q \<and> is_number_token ([] @ w @ b)"
        using q b facts(2) by simp
      with "2.prems"(3) have "b = []" unfolding maximal_number_token_def by blast
      with b q start(1) d mr show ?thesis by simp
    next
      case inside
      from inside(2) obtain x u' where u: "u = x # u'" by (cases u) auto
      from tw obtain y w' where w: "w = y # w'" by (cases w) auto
      with inside(4) u have yx: "y = x" by simp
      from facts(2) inside(3) u have "is_number_token (d @ x # u')" by simp
      then have dx: "is_digit x" using inside(1) by (rule is_number_token_tail_digits)
      from tw w yx dx have dw: "list_all is_digit w"
        using token_from_digit [of x w'] by simp
      from inside(4) have "prefix w (u @ rest)" by (metis prefixI)
      from digits_prefix_stops [OF dw this facts(3)] obtain b where b: "u = w @ b"
        by (auto simp: prefix_def)
      with inside(4) have q: "q = b @ rest" by simp
      have "suffix d p' \<and> prefix b q \<and> is_number_token (d @ w @ b)"
        using d q b inside(3) facts(2) by (auto simp: suffix_def)
      with "2.prems"(3) have "d = []" unfolding maximal_number_token_def by blast
      with inside(1) show ?thesis by simp
    qed
  qed
qed

lemma occurrences_from_sorted:
  "sorted_wrt (\<lambda>(p1, w1, q1) (p2, w2, q2). length (p1 @ w1) \<le> length p2)
     (occurrences_from p r)"
proof (induction p r rule: occurrences_from.induct)
  case (1 p)
  show ?case by simp
next
  case (2 p c cs)
  show ?case
  proof (cases "number_here (c # cs)")
    case None
    with "2.IH"(1) show ?thesis by simp
  next
    case (Some mr)
    then obtain m rest where mr: "number_here (c # cs) = Some (m, rest)" by (cases mr) simp
    have "length (p @ m) \<le> length p2"
      if "(p2, w2, q2) \<in> set (occurrences_from (p @ m) rest)" for p2 w2 q2
      using occurrences_from_prefix [OF that] by (auto simp: prefix_def)
    with "2.IH"(2) [OF mr refl] mr show ?thesis by auto
  qed
qed

lemma match_all_occurrences:
  "match_all r = map (\<lambda>(p, w, q). w) (occurrences_from p r)"
proof (induction p r rule: occurrences_from.induct)
  case (1 p)
  show ?case by simp
next
  case (2 p c cs)
  show ?case
  proof (cases "number_here (c # cs)")
    case None
    with "2.IH"(1) show ?thesis by simp
  next
    case (Some mr)
    then obtain m rest where mr: "number_here (c # cs) = Some (m, rest)" by (cases mr) simp
    with "2.IH"(2) [OF mr refl] show ?thesis by simp
  qed
qed


lemma match_all_maximal_tokens:
  "\<exists>occ. set occ = {(p, w, q). p @ w @ q = r \<and> maximal_number_token p w q} \<and>
         sorted_wrt (\<lambda>(p1, w1, q1) (p2, w2, q2). length (p1 @ w1) \<le> length p2) occ \<and>
         match_all r = map (\<lambda>(p, w, q). w) occ"
proof -
  let ?occ = "occurrences_from [] r"
  have "set ?occ = {(p, w, q). p @ w @ q = r \<and> maximal_number_token p w q}"
  proof (intro set_eqI iffI)
    fix t assume "t \<in> set ?occ"
    then show "t \<in> {(p, w, q). p @ w @ q = r \<and> maximal_number_token p w q}"
      using occurrences_from_sound [of "[]" r] by (cases t) auto
  next
    fix t assume "t \<in> {(p, w, q). p @ w @ q = r \<and> maximal_number_token p w q}"
    then show "t \<in> set ?occ"
      using occurrences_from_complete [of "[]" r] by (cases t) auto
  qed
  with occurrences_from_sorted [of "[]" r] match_all_occurrences [of r "[]"]
  show ?thesis by blast
qed

lemma match_all_Nil_iff:
  "match_all r = [] \<longleftrightarrow> \<not> (\<exists>p w q. r = p @ w @ q \<and> is_number_token w)"
proof
  show "match_all r = [] \<Longrightarrow> \<not> (\<exists>p w q. r = p @ w @ q \<and> is_number_token w)"
  proof (induction r rule: match_all.induct)
    case 1
    show ?case by simp
  next
    case (2 c cs)
    from "2.prems" have none: "number_here (c # cs) = None"
      by (cases "number_here (c # cs)") auto
    with "2.prems" have "match_all cs = []" by simp
    from "2.IH"(1) [OF none this] have ih: "\<not> (\<exists>p w q. cs = p @ w @ q \<and> is_number_token w)" .
    show ?case
    proof
      assume "\<exists>p w q. c # cs = p @ w @ q \<and> is_number_token w"
      then obtain p w q where o: "c # cs = p @ w @ q" "is_number_token w" by blast
      show False
      proof (cases p)
        case Nil
        with o number_here_None [OF none, of w q] show False by simp
      next
        case (Cons x p')
        with o have "cs = p' @ w @ q" by simp
        with o(2) ih show False by blast
      qed
    qed
  qed
next
  assume no: "\<not> (\<exists>p w q. r = p @ w @ q \<and> is_number_token w)"
  show "match_all r = []"
  proof (rule ccontr)
    assume "match_all r \<noteq> []"
    then have "occurrences_from [] r \<noteq> []" by (simp add: match_all_occurrences [of r "[]"])
    then obtain t where "t \<in> set (occurrences_from [] r)" by (cases "occurrences_from [] r") auto
    then obtain p w q where "(p, w, q) \<in> set (occurrences_from [] r)"
      by (metis prod_cases3)
    from occurrences_from_sound [OF _ this] have "p @ w @ q = r" "is_number_token w"
      by (simp_all add: maximal_number_token_def)
    with no show False by blast
  qed
qed

lemma validateResponse_absent:
  "response = None \<or> response = Some [] \<or> expected = None \<or> expected = Some []
     \<Longrightarrow> validateResponse response expected = \<lparr>valid = False, extractedNumbers = None\<rparr>"
  by (auto simp: validateResponse_def split: option.splits)

lemma validateResponse_present:
  assumes "r \<noteq> []" and "e \<noteq> []"
  shows "valid (validateResponse (Some r) (Some e)) = (e \<in> set (match_all r))"
    and "extractedNumbers (validateResponse (Some r) (Some e))
           = (if match_all r = [] then None else Some (match_all r))"
  using assms by (auto simp: validateResponse_def String_match_def split: list.splits)

text \<open>
  C5: \<open>validateResponse\<close> returns \<open>valid = false\<close> and no extracted numbers when either
  argument is absent or empty. Otherwise the extracted numbers are the maximal occurrences of
  a token of the form \<^verbatim>\<open>-?[0-9]+\<close> in the response, each once, from left to right
  (with none, the field is absent), and \<open>valid\<close> holds exactly when the expected answer
  is equal, as a string, to one of them. So \<open>-3\<close> is found in \<open>-3 and 8\<close>, and for the
  response \<open>The answer is 9.\<close> and the expected answer 8 the result is not valid, with
  the one extracted number 9.
\<close>

theorem validateResponse_maximal_tokens:
  "(response = None \<or> response = Some [] \<or> expected = None \<or> expected = Some []
      \<longrightarrow> validateResponse response expected = \<lparr>valid = False, extractedNumbers = None\<rparr>) \<and>
   (r \<noteq> [] \<and> e \<noteq> [] \<longrightarrow>
      (\<exists>occ. set occ = {(p, w, q). p @ w @ q = r \<and> maximal_number_token p w q} \<and>
         sorted_wrt (\<lambda>(p1, w1, q1) (p2, w2, q2). length (p1 @ w1) \<le> length p2) occ \<and>
         valid (validateResponse (Some r) (Some e)) = (e \<in> set (map (\<lambda>(p, w, q). w) occ)) \<and>
         extractedNumbers (validateResponse (Some r) (Some e))
           = (if occ = [] then None else Some (map (\<lambda>(p, w, q). w) occ)))) \<and>
   valid (validateResponse (Some (js ''-3 and 8'')) (Some (js ''-3''))) \<and>
   validateResponse (Some (js ''The answer is 9.'')) (Some (js ''8''))
     = \<lparr>valid = False, extractedNumbers = Some [js ''9'']\<rparr>"
proof (intro conjI impI)
  assume "response = None \<or> response = Some [] \<or> expected = None
            \<or> expected = Some []"
  then show "validateResponse response expected
               = \<lparr>valid = False, extractedNumbers = None\<rparr>"
    by (rule validateResponse_absent)
next
  assume ne: "r \<noteq> [] \<and> e \<noteq> []"
  from match_all_maximal_tokens [of r] obtain occ where
    occ: "set occ = {(p, w, q). p @ w @ q = r \<and> maximal_number_token p w q}"
      "sorted_wrt (\<lambda>(p1, w1, q1) (p2, w2, q2). length (p1 @ w1) \<le> length p2) occ"
      "match_all r = map (\<lambda>(p, w, q). w) occ"
    by blast
  from ne have "valid (validateResponse (Some r) (Some e)) = (e \<in> set (map (\<lambda>(p, w, q). w) occ))"
    "extractedNumbers (validateResponse (Some r) (Some e))
           = (if occ = [] then None else Some (map (\<lambda>(p, w, q). w) occ))"
    by (simp_all add: validateResponse_present occ(3))
  with occ(1,2) show "\<exists>occ. set occ = {(p, w, q). p @ w @ q = r \<and> maximal_number_token p w q} \<and>
         sorted_wrt (\<lambda>(p1, w1, q1) (p2, w2, q2). length (p1 @ w1) \<le> length p2) occ \<and>
         valid (validateResponse (Some r) (Some e)) = (e \<in> set (map (\<lambda>(p, w, q). w) occ)) \<and>
         extractedNumbers (validateResponse (Some r) (Some e))
           = (if occ = [] then None else Some (map (\<lambda>(p, w, q). w) occ))"
    by blast
next
  show "valid (validateResponse (Some (js ''-3 and 8'')) (Some (js ''-3'')))"
    by (simp add: validateResponse_def String_match_def number_here_def is_digit_def js_def)
  show "validateResponse (Some (js ''The answer is 9.'')) (Some (js ''8''))
     = \<lparr>valid = False, extractedNumbers = Some [js ''9'']\<rparr>"
    by (simp add: validateResponse_def String_match_def number_here_def is_digit_def js_def)
qed


lemma validateResponse_examples:
  "validateResponse (Some (js ''-3 and 8'')) (Some (js ''-3''))
     = \<lparr>valid = True, extractedNumbers = Some [js ''-3'', js ''8'']\<rparr>"
  "validateResponse (Some (js ''The answer is 9.'')) (Some (js ''8''))
     = \<lparr>valid = False, extractedNumbers = Some [js ''9'']\<rparr>"
  "validateResponse (Some (js ''no digits - here'')) (Some (js ''8''))
     = \<lparr>valid = False, extractedNumbers = None\<rparr>"
  by (simp_all add: validateResponse_def String_match_def number_here_def is_digit_def js_def)

theorem validateResponse_maximal_tokens_witness:
  "validateResponse (Some []) (Some (js ''5'')) = \<lparr>valid = False, extractedNumbers = None\<rparr> \<and>
   js ''-3 and 8'' \<noteq> [] \<and> js ''-3'' \<noteq> [] \<and>
   (\<exists>occ. set occ = {(p, w, q). p @ w @ q = js ''-3 and 8'' \<and> maximal_number_token p w q} \<and>
      map (\<lambda>(p, w, q). w) occ = [js ''-3'', js ''8'']) \<and>
   validateResponse (Some (js ''-3 and 8'')) (Some (js ''-3''))
     = \<lparr>valid = True, extractedNumbers = Some [js ''-3'', js ''8'']\<rparr>"
proof -
  note t = validateResponse_maximal_tokens
      [where response = "Some []" and expected = "Some (js ''5'')"
         and r = "js ''-3 and 8''" and e = "js ''-3''"]
  have ne: "js ''-3 and 8'' \<noteq> []" "js ''-3'' \<noteq> []" by (simp_all add: js_def)
  then have prem: "js ''-3 and 8'' \<noteq> [] \<and> js ''-3'' \<noteq> []" by (rule conjI)
  have a: "validateResponse (Some []) (Some (js ''5''))
             = \<lparr>valid = False, extractedNumbers = None\<rparr>"
    using t [THEN conjunct1] by simp
  note ex = t [THEN conjunct2, THEN conjunct1, THEN mp, OF prem]
  from ex have b: "\<exists>occ. set occ = {(p, w, q). p @ w @ q = js ''-3 and 8''
                                  \<and> maximal_number_token p w q} \<and>
      map (\<lambda>(p, w, q). w) occ = [js ''-3'', js ''8'']"
  proof (elim exE conjE)
    fix occ
    assume A: "set occ = {(p, w, q). p @ w @ q = js ''-3 and 8'' \<and> maximal_number_token p w q}"
      and E: "extractedNumbers (validateResponse (Some (js ''-3 and 8'')) (Some (js ''-3'')))
         = (if occ = [] then None else Some (map (\<lambda>(p, w, q). w) occ))"
    from E have "map (\<lambda>(p, w, q). w) occ = [js ''-3'', js ''8'']"
      by (simp add: validateResponse_examples(1) split: if_splits)
    with A show ?thesis by (intro exI [of _ occ] conjI)
  qed
  from a ne(1) ne(2) b validateResponse_examples(1) show ?thesis by (intro conjI)
qed

text \<open>
  C10: the extracted numbers of a result of \<open>validateResponse\<close> are never an empty array.
  They are absent exactly when an argument is absent or empty or no token of the form
  \<^verbatim>\<open>-?[0-9]+\<close> occurs in the response; and when the result is valid, they are
  present and the expected answer is one of them.
\<close>

theorem validateResponse_never_empty_array:
  "extractedNumbers (validateResponse response expected) \<noteq> Some [] \<and>
   (extractedNumbers (validateResponse response expected) = None) =
     (response = None \<or> response = Some [] \<or> expected = None \<or> expected = Some []
      \<or> (\<exists>r. response = Some r \<and> \<not> (\<exists>p w q. r = p @ w @ q \<and> is_number_token w))) \<and>
   (valid (validateResponse response expected) \<longrightarrow>
      (\<exists>ns e. extractedNumbers (validateResponse response expected) = Some ns \<and>
             expected = Some e \<and> e \<in> set ns))"
proof (cases "response = None \<or> response = Some [] \<or> expected = None
               \<or> expected = Some []")
  case True
  note eq = validateResponse_absent [OF True]
  have c1: "extractedNumbers (validateResponse response expected) \<noteq> Some []"
    by (simp add: eq)
  from True have "response = None \<or> response = Some [] \<or> expected = None
      \<or> expected = Some []
      \<or> (\<exists>r. response = Some r \<and> \<not> (\<exists>p w q. r = p @ w @ q \<and> is_number_token w))"
    by blast
  then have c2: "(extractedNumbers (validateResponse response expected) = None) =
     (response = None \<or> response = Some [] \<or> expected = None \<or> expected = Some []
      \<or> (\<exists>r. response = Some r \<and> \<not> (\<exists>p w q. r = p @ w @ q \<and> is_number_token w)))"
    by (simp only: eq ValidationResult.simps simp_thms)
  have c3: "valid (validateResponse response expected) \<longrightarrow>
      (\<exists>ns e. extractedNumbers (validateResponse response expected) = Some ns \<and>
             expected = Some e \<and> e \<in> set ns)"
    by (simp add: eq)
  from c1 c2 c3 show ?thesis by (intro conjI)
next
  case False
  then obtain r e where re: "response = Some r" "expected = Some e" "r \<noteq> []" "e \<noteq> []"
    by auto
  note p = validateResponse_present [OF re(3,4)]
  have c1: "extractedNumbers (validateResponse response expected) \<noteq> Some []"
    by (simp add: re p(2))
  have none: "(extractedNumbers (validateResponse response expected) = None)
                = (match_all r = [])"
    by (simp add: re p(2))
  have big: "(response = None \<or> response = Some [] \<or> expected = None
      \<or> expected = Some []
      \<or> (\<exists>r. response = Some r \<and> \<not> (\<exists>p w q. r = p @ w @ q \<and> is_number_token w)))
      = (\<not> (\<exists>p w q. r = p @ w @ q \<and> is_number_token w))"
    using re by simp
  have c2: "(extractedNumbers (validateResponse response expected) = None) =
     (response = None \<or> response = Some [] \<or> expected = None \<or> expected = Some []
      \<or> (\<exists>r. response = Some r \<and> \<not> (\<exists>p w q. r = p @ w @ q \<and> is_number_token w)))"
    unfolding none big by (rule match_all_Nil_iff)
  have c3: "valid (validateResponse response expected) \<longrightarrow>
      (\<exists>ns e. extractedNumbers (validateResponse response expected) = Some ns \<and>
             expected = Some e \<and> e \<in> set ns)"
  proof
    assume "valid (validateResponse response expected)"
    then have m: "e \<in> set (match_all r)" by (simp add: re p(1))
    then have "match_all r \<noteq> []" by auto
    then have "extractedNumbers (validateResponse response expected)
                 = Some (match_all r)"
      by (simp add: re p(2))
    with m re(2) show "\<exists>ns e. extractedNumbers (validateResponse response expected) = Some ns \<and>
             expected = Some e \<and> e \<in> set ns"
      by (intro exI [of _ "match_all r"] exI [of _ e] conjI)
  qed
  from c1 c2 c3 show ?thesis by (intro conjI)
qed

theorem validateResponse_never_empty_array_witness:
  "valid (validateResponse (Some (js ''-3 and 8'')) (Some (js ''-3''))) \<and>
   (\<exists>ns. extractedNumbers (validateResponse (Some (js ''-3 and 8'')) (Some (js ''-3'')))
           = Some ns \<and> js ''-3'' \<in> set ns) \<and>
   extractedNumbers (validateResponse (Some (js ''-3 and 8'')) (Some (js ''-3'')))
     = Some [js ''-3'', js ''8'']"
proof -
  note t = validateResponse_never_empty_array
      [of "Some (js ''-3 and 8'')" "Some (js ''-3'')"]
  have v: "valid (validateResponse (Some (js ''-3 and 8'')) (Some (js ''-3'')))"
    by (simp add: validateResponse_examples(1))
  have x: "extractedNumbers (validateResponse (Some (js ''-3 and 8'')) (Some (js ''-3'')))
     = Some [js ''-3'', js ''8'']"
    by (simp add: validateResponse_examples(1))
  note ex = t [THEN conjunct2, THEN conjunct2, THEN mp, OF v]
  from ex have b: "\<exists>ns. extractedNumbers
          (validateResponse (Some (js ''-3 and 8'')) (Some (js ''-3'')))
           = Some ns \<and> js ''-3'' \<in> set ns"
  proof (elim exE conjE)
    fix ns e
    assume E: "extractedNumbers (validateResponse (Some (js ''-3 and 8'')) (Some (js ''-3'')))
                 = Some ns"
      and S: "Some (js ''-3'') = Some e" and M: "e \<in> set ns"
    from S M have "js ''-3'' \<in> set ns" by simp
    with E show ?thesis by (intro exI [of _ ns] conjI)
  qed
  from v b x show ?thesis by (intro conjI)
qed


section \<open>Properties of the challenge generator\<close>

lemma digit_unit_props:
  assumes "d < 10"
  shows "is_digit (digit_unit d)" and "unat (digit_unit d) - 48 = d"
    and "(digit_unit d = 0x30) = (d = 0)"
proof -
  have u: "unat (digit_unit d) = 48 + d"
  proof -
    have "unat (digit_unit d) = (48 + d) mod 2 ^ LENGTH(16)"
      by (simp only: digit_unit_def unat_of_nat)
    also have "\<dots> = 48 + d" using assms by simp
    finally show ?thesis .
  qed
  show "is_digit (digit_unit d)"
    using assms u by (simp add: is_digit_def word_le_nat_alt)
  show "unat (digit_unit d) - 48 = d" using u by simp
  show "(digit_unit d = 0x30) = (d = 0)"
    using u by (auto simp: word_unat_eq_iff)
qed

lemma decimal_value_snoc:
  "decimal_value (s @ [c]) = 10 * decimal_value s + (unat c - 48)"
  by (simp add: decimal_value_def)

lemma decimal_nonempty: "decimal n \<noteq> []"
  by (subst decimal.simps) simp

lemma decimal_digits: "list_all is_digit (decimal n)"
proof (induction n rule: decimal.induct)
  case (1 n)
  show ?case
  proof (cases "n < 10")
    case True
    then show ?thesis by (subst decimal.simps) (simp add: digit_unit_props)
  next
    case False
    with 1 show ?thesis by (subst decimal.simps) (simp add: digit_unit_props)
  qed
qed

lemma decimal_value_decimal: "decimal_value (decimal n) = n"
proof (induction n rule: decimal.induct)
  case (1 n)
  show ?case
  proof (cases "n < 10")
    case True
    then show ?thesis
      by (subst decimal.simps) (simp add: decimal_value_def digit_unit_props)
  next
    case False
    with 1 show ?thesis
      by (subst decimal.simps) (simp add: decimal_value_snoc digit_unit_props)
  qed
qed

lemma decimal_no_leading_zero: "0 < n \<Longrightarrow> hd (decimal n) \<noteq> 0x30"
proof (induction n rule: decimal.induct)
  case (1 n)
  show ?case
  proof (cases "n < 10")
    case True
    with "1.prems" show ?thesis by (subst decimal.simps) (simp add: digit_unit_props)
  next
    case False
    then have "0 < n div 10" by simp
    with 1 False have "hd (decimal (n div 10)) \<noteq> 0x30" by simp
    with False decimal_nonempty [of "n div 10"] show ?thesis
      by (subst decimal.simps) simp
  qed
qed

lemma decimal_is_decimal_of: "is_decimal_of (decimal n) n"
proof -
  have "length (decimal n) = 1 \<or> hd (decimal n) \<noteq> 0x30"
  proof (cases "n = 0")
    case True
    then show ?thesis by (subst decimal.simps) simp
  next
    case False
    then show ?thesis by (simp add: decimal_no_leading_zero)
  qed
  then show ?thesis
    by (simp add: is_decimal_of_def decimal_nonempty decimal_digits decimal_value_decimal)
qed

lemma String_of_int_nonneg: "0 \<le> i \<Longrightarrow> is_decimal_of (String_of_int i) (nat i)"
  by (simp add: String_of_int_def decimal_is_decimal_of)

lemma draw_range:
  fixes u :: rat
  assumes "is_binary64 u" and "0 \<le> u" and "u < 1"
  shows "1 \<le> \<lfloor>fl (u * 50)\<rfloor> + 1" and "\<lfloor>fl (u * 50)\<rfloor> + 1 \<le> 50"
proof -
  from assms(2) have "0 \<le> u * 50" by simp
  then have "0 \<le> fl (u * 50)" by (rule fl_nonneg)
  then have "0 \<le> \<lfloor>fl (u * 50)\<rfloor>" by simp
  then show "1 \<le> \<lfloor>fl (u * 50)\<rfloor> + 1" by simp
  from assms(1) have "fl u = u" by (simp only: is_binary64_def)
  from binary64_below_one [OF this assms(2,3)] have "u * 50 \<le> 50 - 50 / 2 ^ 53" by simp
  with \<open>0 \<le> u * 50\<close> have "fl (u * 50) < of_int 50" using fl_below_50 by simp
  then have "\<lfloor>fl (u * 50)\<rfloor> < 50" by (simp only: floor_less_iff)
  then show "\<lfloor>fl (u * 50)\<rfloor> + 1 \<le> 50" by simp
qed


text \<open>
  C6: for draws that are binary64 values, at least 0 and less than 1, both operands of
  the challenge are integers from 1 to 50. For an addition the question is \<open>a + b\<close> and
  the expected answer is the decimal string of \<open>a + b\<close>. For a subtraction the question
  puts the larger operand first, so the minuend is at least the subtrahend, and the
  expected answer is the decimal string, without sign, of \<open>|a - b|\<close>.
\<close>

theorem generateChallenge_operands:
  "is_binary64 u1 \<and> 0 \<le> u1 \<and> u1 < 1 \<and> is_binary64 u2 \<and> 0 \<le> u2 \<and> u2 < 1 \<longrightarrow>
     (\<exists>a b. a = \<lfloor>fl (u1 * 50)\<rfloor> + 1 \<and> b = \<lfloor>fl (u2 * 50)\<rfloor> + 1 \<and>
        1 \<le> a \<and> a \<le> 50 \<and> 1 \<le> b \<and> b \<le> 50 \<and>
        is_decimal_of (String_of_int a) (nat a) \<and> is_decimal_of (String_of_int b) (nat b) \<and>
        (u3 > 1 / 2 \<longrightarrow>
           prompt (generateChallenge u1 u2 u3) =
             buildPromptWithExamples
               (String_of_int a @ js '' + '' @ String_of_int b @ js '' = ?'') \<and>
           is_decimal_of (expectedAnswer (generateChallenge u1 u2 u3)) (nat (a + b))) \<and>
        (\<not> u3 > 1 / 2 \<longrightarrow>
           prompt (generateChallenge u1 u2 u3) =
             buildPromptWithExamples
               (String_of_int (max a b) @ js '' - '' @ String_of_int (min a b) @ js '' = ?'') \<and>
           min a b \<le> max a b \<and>
           max a b - min a b = \<bar>a - b\<bar> \<and>
           is_decimal_of (expectedAnswer (generateChallenge u1 u2 u3)) (nat \<bar>a - b\<bar>)))"
proof
  assume h: "is_binary64 u1 \<and> 0 \<le> u1 \<and> u1 < 1 \<and> is_binary64 u2 \<and> 0 \<le> u2 \<and> u2 < 1"
  let ?a = "\<lfloor>fl (u1 * 50)\<rfloor> + 1" and ?b = "\<lfloor>fl (u2 * 50)\<rfloor> + 1"
  from h have ra: "1 \<le> ?a" "?a \<le> 50" and rb: "1 \<le> ?b" "?b \<le> 50"
    using draw_range [of u1] draw_range [of u2] by simp_all
  have da: "is_decimal_of (String_of_int ?a) (nat ?a)"
    and db: "is_decimal_of (String_of_int ?b) (nat ?b)"
    using ra rb by (simp_all add: String_of_int_nonneg)
  have add: "u3 > 1 / 2 \<longrightarrow>
           prompt (generateChallenge u1 u2 u3) =
             buildPromptWithExamples
               (String_of_int ?a @ js '' + '' @ String_of_int ?b @ js '' = ?'') \<and>
           is_decimal_of (expectedAnswer (generateChallenge u1 u2 u3)) (nat (?a + ?b))"
  proof
    assume "u3 > 1 / 2"
    moreover have "0 \<le> ?a + ?b" using ra rb by simp
    ultimately show "prompt (generateChallenge u1 u2 u3) =
             buildPromptWithExamples
               (String_of_int ?a @ js '' + '' @ String_of_int ?b @ js '' = ?'') \<and>
           is_decimal_of (expectedAnswer (generateChallenge u1 u2 u3)) (nat (?a + ?b))"
      using String_of_int_nonneg [of "?a + ?b"]
      by (simp add: generateChallenge_def Let_def)
  qed
  have sub: "\<not> u3 > 1 / 2 \<longrightarrow>
           prompt (generateChallenge u1 u2 u3) =
             buildPromptWithExamples
               (String_of_int (max ?a ?b) @ js '' - '' @ String_of_int (min ?a ?b) @ js '' = ?'') \<and>
           min ?a ?b \<le> max ?a ?b \<and>
           max ?a ?b - min ?a ?b = \<bar>?a - ?b\<bar> \<and>
           is_decimal_of (expectedAnswer (generateChallenge u1 u2 u3)) (nat \<bar>?a - ?b\<bar>)"
  proof
    assume n: "\<not> u3 > 1 / 2"
    have m: "max ?a ?b - min ?a ?b = \<bar>?a - ?b\<bar>" by (simp add: max_def min_def)
    have "0 \<le> max ?a ?b - min ?a ?b" by (simp add: max_def min_def)
    from String_of_int_nonneg [OF this]
    have "is_decimal_of (String_of_int (max ?a ?b - min ?a ?b)) (nat \<bar>?a - ?b\<bar>)"
      by (simp only: m)
    with n m show "prompt (generateChallenge u1 u2 u3) =
             buildPromptWithExamples
               (String_of_int (max ?a ?b) @ js '' - '' @ String_of_int (min ?a ?b) @ js '' = ?'') \<and>
           min ?a ?b \<le> max ?a ?b \<and>
           max ?a ?b - min ?a ?b = \<bar>?a - ?b\<bar> \<and>
           is_decimal_of (expectedAnswer (generateChallenge u1 u2 u3)) (nat \<bar>?a - ?b\<bar>)"
      by (simp add: generateChallenge_def Let_def)
  qed
  from ra rb da db add sub
  show "\<exists>a b. a = \<lfloor>fl (u1 * 50)\<rfloor> + 1 \<and> b = \<lfloor>fl (u2 * 50)\<rfloor> + 1 \<and>
        1 \<le> a \<and> a \<le> 50 \<and> 1 \<le> b \<and> b \<le> 50 \<and>
        is_decimal_of (String_of_int a) (nat a) \<and> is_decimal_of (String_of_int b) (nat b) \<and>
        (u3 > 1 / 2 \<longrightarrow>
           prompt (generateChallenge u1 u2 u3) =
             buildPromptWithExamples
               (String_of_int a @ js '' + '' @ String_of_int b @ js '' = ?'') \<and>
           is_decimal_of (expectedAnswer (generateChallenge u1 u2 u3)) (nat (a + b))) \<and>
        (\<not> u3 > 1 / 2 \<longrightarrow>
           prompt (generateChallenge u1 u2 u3) =
             buildPromptWithExamples
               (String_of_int (max a b) @ js '' - '' @ String_of_int (min a b) @ js '' = ?'') \<and>
           min a b \<le> max a b \<and>
           max a b - min a b = \<bar>a - b\<bar> \<and>
           is_decimal_of (expectedAnswer (generateChallenge u1 u2 u3)) (nat \<bar>a - b\<bar>))"
    by (intro exI [of _ ?a] exI [of _ ?b] conjI) simp_all
qed

lemma String_of_int_examples:
  "String_of_int 6 = js ''6''" "String_of_int 50 = js ''50''"
  "String_of_int 44 = js ''44''" "String_of_int 56 = js ''56''"
  by (simp_all add: String_of_int_def decimal.simps digit_unit_def js_def)

text \<open>
  Three draws: the binary64 values nearest to 0.1, to 0.98 and to 0.3. The second is
  below 0.98, and its product with 50, rounded to binary64, is 49.
\<close>

lemma draw_examples:
  "is_binary64 (fl (1 / 10))" "0 \<le> fl (1 / 10)" "fl (1 / 10) < 1"
  "is_binary64 (fl (98 / 100))" "0 \<le> fl (98 / 100)" "fl (98 / 100) < 1"
  "fl (98 / 100) < 98 / 100"
  "\<lfloor>fl (fl (1 / 10) * 50)\<rfloor> + 1 = 6" "\<lfloor>fl (fl (98 / 100) * 50)\<rfloor> + 1 = 50"
  "\<not> fl (3 / 10) > 1 / 2" "fl (9 / 10) > 1 / 2"
  by code_simp+

lemma generateChallenge_examples:
  "generateChallenge (fl (1 / 10)) (fl (98 / 100)) (fl (3 / 10)) =
     \<lparr>prompt = buildPromptWithExamples (js ''50 - 6 = ?''), expectedAnswer = js ''44''\<rparr>"
  "generateChallenge (fl (1 / 10)) (fl (98 / 100)) (fl (9 / 10)) =
     \<lparr>prompt = buildPromptWithExamples (js ''6 + 50 = ?''), expectedAnswer = js ''56''\<rparr>"
  unfolding generateChallenge_def Let_def draw_examples(8,9)
  using draw_examples(10,11)
  by (simp_all add: String_of_int_examples) (simp_all add: js_def)

theorem generateChallenge_operands_witness:
  "is_binary64 (fl (1 / 10)) \<and> 0 \<le> fl (1 / 10) \<and> fl (1 / 10) < 1 \<and>
   is_binary64 (fl (98 / 100)) \<and> 0 \<le> fl (98 / 100) \<and> fl (98 / 100) < 1 \<and>
   fl (98 / 100) < 98 / 100 \<and>
   \<lfloor>fl (fl (1 / 10) * 50)\<rfloor> + 1 = 6 \<and> \<lfloor>fl (fl (98 / 100) * 50)\<rfloor> + 1 = 50 \<and>
   generateChallenge (fl (1 / 10)) (fl (98 / 100)) (fl (3 / 10)) =
     \<lparr>prompt = buildPromptWithExamples (js ''50 - 6 = ?''), expectedAnswer = js ''44''\<rparr> \<and>
   is_decimal_of (js ''44'') 44 \<and>
   generateChallenge (fl (1 / 10)) (fl (98 / 100)) (fl (9 / 10)) =
     \<lparr>prompt = buildPromptWithExamples (js ''6 + 50 = ?''), expectedAnswer = js ''56''\<rparr> \<and>
   is_decimal_of (js ''56'') 56"
proof -
  have prem: "is_binary64 (fl (1 / 10)) \<and> 0 \<le> fl (1 / 10) \<and> fl (1 / 10) < 1 \<and>
     is_binary64 (fl (98 / 100)) \<and> 0 \<le> fl (98 / 100) \<and> fl (98 / 100) < 1"
    using draw_examples(1-6) by (intro conjI)
  note s = generateChallenge_operands [where ?u1.0 = "fl (1 / 10)" and ?u2.0 = "fl (98 / 100)"
      and ?u3.0 = "fl (3 / 10)", THEN mp, OF prem]
  note a = generateChallenge_operands [where ?u1.0 = "fl (1 / 10)" and ?u2.0 = "fl (98 / 100)"
      and ?u3.0 = "fl (9 / 10)", THEN mp, OF prem]
  note ops = draw_examples(8,9)
  from s draw_examples(10)
  have "is_decimal_of
          (expectedAnswer (generateChallenge (fl (1 / 10)) (fl (98 / 100)) (fl (3 / 10))))
          (nat \<bar>6 - 50\<bar>)"
    unfolding ops by simp
  then have d1: "is_decimal_of (js ''44'') 44"
    unfolding generateChallenge_examples(1) by simp
  from a draw_examples(11)
  have "is_decimal_of
          (expectedAnswer (generateChallenge (fl (1 / 10)) (fl (98 / 100)) (fl (9 / 10))))
          (nat (6 + 50))"
    unfolding ops by simp
  then have d2: "is_decimal_of (js ''56'') 56"
    unfolding generateChallenge_examples(2) by simp
  from draw_examples(1-9) generateChallenge_examples d1 d2 show ?thesis by (intro conjI)
qed


section \<open>Properties of the scheduler\<close>

lemma insert_sorted_mset: "mset (insert_sorted cmp x ys) = add_mset x (mset ys)"
  by (induction ys) simp_all

lemma Array_sort_mset: "mset (Array_sort cmp xs) = mset xs"
  unfolding Array_sort_def by (induction xs) (simp_all add: insert_sorted_mset)

lemma insert_sorted_set: "set (insert_sorted cmp x ys) = insert x (set ys)"
  by (induction ys) auto

lemma insert_sorted_sorted:
  assumes anti: "\<forall>a b. (0 < cmp a b) = (cmp b a < 0)"
    and trans: "\<forall>a b c. cmp a b \<le> 0 \<and> cmp b c \<le> 0 \<longrightarrow> cmp a c \<le> 0"
    and s: "sorted_wrt (\<lambda>a b. cmp a b \<le> 0) ys"
  shows "sorted_wrt (\<lambda>a b. cmp a b \<le> 0) (insert_sorted cmp x ys)"
  using s
proof (induction ys)
  case Nil
  show ?case by simp
next
  case (Cons y ys)
  show ?case
  proof (cases "cmp x y \<le> 0")
    case True
    have "cmp x z \<le> 0" if "z \<in> set ys" for z
    proof -
      from Cons.prems that have "cmp y z \<le> 0" by simp
      with True trans show ?thesis by blast
    qed
    with True Cons.prems show ?thesis by simp
  next
    case False
    then have "0 < cmp x y" by simp
    with anti have yx: "cmp y x \<le> 0" by (simp add: less_imp_le)
    from Cons have "sorted_wrt (\<lambda>a b. cmp a b \<le> 0) (insert_sorted cmp x ys)" by simp
    with False yx Cons.prems show ?thesis by (simp add: insert_sorted_set)
  qed
qed

lemma Array_sort_sorted:
  assumes "\<forall>a b. (0 < cmp a b) = (cmp b a < 0)"
    and "\<forall>a b c. cmp a b \<le> 0 \<and> cmp b c \<le> 0 \<longrightarrow> cmp a c \<le> 0"
  shows "sorted_wrt (\<lambda>a b. cmp a b \<le> 0) (Array_sort cmp xs)"
  unfolding Array_sort_def
  by (induction xs) (simp_all add: insert_sorted_sorted [OF assms])

lemma Promise_all_settle_fulfilled:
  "Promise_all_settle (map Inr rs) order slots = map_option Inr (those (fill_slots rs order slots))"
  by (induction order arbitrary: slots) (simp_all add: fill_slots_def)

lemma fill_slots_length: "length (fill_slots rs order slots) = length slots"
  by (induction order arbitrary: slots) (simp_all add: fill_slots_def)

lemma fill_slots_nth:
  "length slots = length rs \<Longrightarrow> j < length rs \<Longrightarrow>
     fill_slots rs order slots ! j = (if j \<in> set order then Some (rs ! j) else slots ! j)"
proof (induction order arbitrary: slots)
  case Nil
  show ?case by (simp add: fill_slots_def)
next
  case (Cons i order)
  let ?s = "if i < length rs then slots[i := Some (rs ! i)] else slots"
  have l: "length ?s = length rs" using Cons.prems by simp
  have "fill_slots rs (i # order) slots = fill_slots rs order ?s"
    by (simp add: fill_slots_def)
  with Cons.IH [OF l Cons.prems(2)] Cons.prems show ?case
    by (auto simp: nth_list_update)
qed

lemma those_map_Some: "those (map Some xs) = Some xs"
  by (induction xs) simp_all

lemma those_None: "None \<in> set xs \<Longrightarrow> those xs = None"
  by (induction xs) (auto split: option.splits)

lemma Promise_all_fulfilled:
  assumes "set order = {0..<length rs}"
  shows "Promise_all (map Inr rs) order = Some (Inr rs)"
proof -
  let ?f = "fill_slots rs order (replicate (length rs) None)"
  have "?f = map Some rs"
  proof (rule nth_equalityI)
    show "length ?f = length (map Some rs)" by (simp add: fill_slots_length)
  next
    fix j assume "j < length ?f"
    then have j: "j < length rs" by (simp add: fill_slots_length)
    with assms show "?f ! j = map Some rs ! j" by (simp add: fill_slots_nth)
  qed
  then show ?thesis
    by (simp add: Promise_all_def Promise_all_settle_fulfilled those_map_Some)
qed

lemma Promise_all_pending:
  assumes "j < length rs" and "j \<notin> set order"
  shows "Promise_all (map Inr rs) order = None"
proof -
  let ?f = "fill_slots rs order (replicate (length rs) None)"
  from assms have "?f ! j = None" by (simp add: fill_slots_nth)
  moreover have "j < length ?f" using assms(1) by (simp add: fill_slots_length)
  ultimately have "None \<in> set ?f" by (metis nth_mem)
  then show ?thesis
    by (simp add: Promise_all_def Promise_all_settle_fulfilled those_None)
qed

lemma checkWithRetry_always_operational:
  "fst (checkWithRetry always_operational (config_named n)) = Inr (operational_result n)"
proof -
  have "checkWithRetry_from always_operational (config_named n) 0 run_start =
          (Inr (operational_result n), run_start\<lparr>invocations := invocations run_start + 1\<rparr>)"
    by (rule checkWithRetry_from_resolved_return)
       (simp_all add: always_operational_def config_named_def operational_result_def)
  then show ?thesis by (simp add: checkWithRetry_def)
qed

lemma three_configs_upt: "[0..<length three_configs] = [0, 1, 2]"
  by (simp add: three_configs_def upt_rec)

lemma run_rejected_example:
  "runProviderChecks (\<lambda>i. if i = 1 then rejecting_unprintable else always_operational)
     compare_ignoring_case [2, 0, 1] three_configs = Some (Inl cannot_convert)"
proof -
  have p: "map (\<lambda>i. fst (checkWithRetry
                 (if i = 1 then rejecting_unprintable else always_operational)
                 (three_configs ! i))) [0, 1, 2]
             = [Inr (operational_result (js ''Zeta'')), Inl cannot_convert,
                Inr (operational_result (js ''mu''))]"
    by (simp add: three_configs_def checkWithRetry_always_operational unprintable_run)
  have a: "Promise_all [Inr (operational_result (js ''Zeta'')), Inl cannot_convert,
              Inr (operational_result (js ''mu''))] [2, 0, 1]
           = Some (Inl cannot_convert)"
    by (simp add: Promise_all_def numeral_3_eq_3 numeral_2_eq_2)
  have l: "length three_configs \<noteq> 0" by (simp add: three_configs_def)
  show ?thesis
    unfolding runProviderChecks_def three_configs_upt p a using l by simp
qed

lemma checks_resolved:
  assumes "\<forall>i<length configs. \<exists>r. fst (checkWithRetry (exts i) (configs ! i)) = Inr r"
  shows "\<exists>rs. length rs = length configs \<and>
        (\<forall>i<length configs. fst (checkWithRetry (exts i) (configs ! i)) = Inr (rs ! i)) \<and>
        map (\<lambda>i. fst (checkWithRetry (exts i) (configs ! i))) [0..<length configs] = map Inr rs"
proof -
  let ?rs = "map (\<lambda>i. projr (fst (checkWithRetry (exts i) (configs ! i)))) [0..<length configs]"
  have e: "fst (checkWithRetry (exts i) (configs ! i))
             = Inr (projr (fst (checkWithRetry (exts i) (configs ! i))))"
    if "i < length configs" for i
    using assms that by auto
  have "length ?rs = length configs" by simp
  moreover have "\<forall>i<length configs. fst (checkWithRetry (exts i) (configs ! i)) = Inr (?rs ! i)"
    using e by simp
  moreover have "map (\<lambda>i. fst (checkWithRetry (exts i) (configs ! i))) [0..<length configs]
                   = map Inr ?rs"
    using e by simp
  ultimately show ?thesis by blast
qed

lemma Promise_all_settle_rejected:
  "\<exists>i\<in>set order. i < length promises \<and> (\<exists>t. promises ! i = Inl t) \<Longrightarrow>
     \<exists>t i. i < length promises \<and> promises ! i = Inl t \<and>
           Promise_all_settle promises order slots = Some (Inl t)"
proof (induction order arbitrary: slots)
  case Nil
  then show ?case by simp
next
  case (Cons j order)
  show ?case
  proof (cases "j < length promises \<and> (\<exists>t. promises ! j = Inl t)")
    case True
    then obtain t where "promises ! j = Inl t" by blast
    with True have "j < length promises \<and> promises ! j = Inl t \<and>
        Promise_all_settle promises (j # order) slots = Some (Inl t)"
      by simp
    then show ?thesis by blast
  next
    case False
    with Cons.prems
    have rest: "\<exists>i\<in>set order. i < length promises \<and> (\<exists>t. promises ! i = Inl t)"
      by auto
    show ?thesis
    proof (cases "j < length promises")
      case True
      with False obtain v where v: "promises ! j = Inr v" by (cases "promises ! j") auto
      from Cons.IH [OF rest, of "slots[j := Some v]"] True v show ?thesis by simp
    next
      case False
      with Cons.IH [OF rest, of slots] show ?thesis by simp
    qed
  qed
qed

text \<open>
  C4: let \<open>localeCompare\<close> be a consistent comparison (it orders two strings one way or the
  other, and its order is transitive), let every check resolve, and let every check
  complete, in any order. Then \<open>runProviderChecks\<close> resolves with one result for each
  configuration, the results of the checks of the configurations and no others, ordered by
  name, ascending for \<open>localeCompare\<close>; and the array is the same as when the checks
  complete in the order of the configurations. For the empty list it resolves with the
  empty array. While a check has not completed and none has rejected, the promise stays
  pending: there are no partial results. But a check can reject, and once one has, the
  promise of \<open>runProviderChecks\<close> rejects with the reason of a check, and there are no
  results at all: of the three configurations named \<open>Zeta\<close>, \<open>Alpha\<close> and \<open>mu\<close>, the
  checks of the first and the third resolve and the check of the second meets an error
  whose response body has an object with a key \<open>toString\<close> as its \<open>message\<close>.
\<close>

theorem runProviderChecks_sorted_by_name:
  "((\<forall>a b. (0 < localeCompare a b) = (localeCompare b a < 0)) \<and>
    (\<forall>a b c. localeCompare a b \<le> 0 \<and> localeCompare b c \<le> 0 \<longrightarrow> localeCompare a c \<le> 0) \<and>
    (\<forall>i<length configs. \<exists>r. fst (checkWithRetry (exts i) (configs ! i)) = Inr r) \<and>
    set order = {0..<length configs} \<longrightarrow>
      (\<exists>results rs.
         runProviderChecks exts localeCompare order configs = Some (Inr results) \<and>
         length results = length configs \<and>
         length rs = length configs \<and>
         (\<forall>i<length configs. fst (checkWithRetry (exts i) (configs ! i)) = Inr (rs ! i)) \<and>
         mset results = mset rs \<and>
         sorted_wrt (\<lambda>a b. localeCompare (name a) (name b) \<le> 0) results \<and>
         runProviderChecks exts localeCompare [0..<length configs] configs
           = Some (Inr results))) \<and>
   runProviderChecks exts localeCompare order [] = Some (Inr []) \<and>
   ((\<forall>i<length configs. \<exists>r. fst (checkWithRetry (exts i) (configs ! i)) = Inr r) \<and>
    (\<exists>i<length configs. i \<notin> set order) \<longrightarrow>
      runProviderChecks exts localeCompare order configs = None) \<and>
   ((\<exists>i\<in>set order. i < length configs \<and>
        (\<exists>t. fst (checkWithRetry (exts i) (configs ! i)) = Inl t)) \<longrightarrow>
      (\<exists>t i. i < length configs \<and> fst (checkWithRetry (exts i) (configs ! i)) = Inl t \<and>
             runProviderChecks exts localeCompare order configs = Some (Inl t))) \<and>
   runProviderChecks (\<lambda>i. if i = 1 then rejecting_unprintable else always_operational)
     compare_ignoring_case [2, 0, 1] three_configs = Some (Inl cannot_convert)"
proof (intro conjI impI)
  assume h: "(\<forall>a b. (0 < localeCompare a b) = (localeCompare b a < 0)) \<and>
    (\<forall>a b c. localeCompare a b \<le> 0 \<and> localeCompare b c \<le> 0 \<longrightarrow> localeCompare a c \<le> 0) \<and>
    (\<forall>i<length configs. \<exists>r. fst (checkWithRetry (exts i) (configs ! i)) = Inr r) \<and>
    set order = {0..<length configs}"
  let ?cmp = "\<lambda>a b. localeCompare (name a) (name b)"
  from h have anti: "\<forall>a b. (0 < ?cmp a b) = (?cmp b a < 0)" by simp
  from h have trans: "\<forall>a b c. ?cmp a b \<le> 0 \<and> ?cmp b c \<le> 0 \<longrightarrow> ?cmp a c \<le> 0" by blast
  from h have "\<forall>i<length configs. \<exists>r. fst (checkWithRetry (exts i) (configs ! i)) = Inr r"
    by (elim conjE)
  from checks_resolved [OF this] obtain rs where
    rs: "length rs = length configs"
      "\<forall>i<length configs. fst (checkWithRetry (exts i) (configs ! i)) = Inr (rs ! i)"
      "map (\<lambda>i. fst (checkWithRetry (exts i) (configs ! i))) [0..<length configs] = map Inr rs"
    by blast
  let ?results = "Array_sort ?cmp rs"
  have run: "runProviderChecks exts localeCompare ord configs = Some (Inr ?results)"
    if "set ord = {0..<length configs}" for ord
  proof (cases "length configs = 0")
    case True
    with rs(1) show ?thesis by (simp add: runProviderChecks_def Array_sort_def)
  next
    case False
    from that rs(1) have "Promise_all (map Inr rs) ord = Some (Inr rs)"
      by (simp add: Promise_all_fulfilled)
    with False show ?thesis by (simp add: runProviderChecks_def rs(3))
  qed
  have m: "mset ?results = mset rs" by (rule Array_sort_mset)
  then have "size (mset ?results) = size (mset rs)" by simp
  then have l: "length ?results = length configs" using rs(1) by simp
  have s: "sorted_wrt (\<lambda>a b. ?cmp a b \<le> 0) ?results"
    by (rule Array_sort_sorted [OF anti trans])
  have r1: "runProviderChecks exts localeCompare order configs = Some (Inr ?results)"
    using h by (intro run) simp
  have r2: "runProviderChecks exts localeCompare [0..<length configs] configs
              = Some (Inr ?results)"
    by (intro run) simp
  from r1 l rs(1,2) m s r2
  show "\<exists>results rs.
         runProviderChecks exts localeCompare order configs = Some (Inr results) \<and>
         length results = length configs \<and>
         length rs = length configs \<and>
         (\<forall>i<length configs. fst (checkWithRetry (exts i) (configs ! i)) = Inr (rs ! i)) \<and>
         mset results = mset rs \<and>
         sorted_wrt (\<lambda>a b. localeCompare (name a) (name b) \<le> 0) results \<and>
         runProviderChecks exts localeCompare [0..<length configs] configs
           = Some (Inr results)"
    by (intro exI [of _ ?results] exI [of _ rs] conjI)
next
  show "runProviderChecks exts localeCompare order [] = Some (Inr [])"
    by (simp add: runProviderChecks_def)
next
  assume h: "(\<forall>i<length configs. \<exists>r. fst (checkWithRetry (exts i) (configs ! i)) = Inr r) \<and>
    (\<exists>i<length configs. i \<notin> set order)"
  then obtain j where j: "j < length configs" "j \<notin> set order" by blast
  from h have "\<forall>i<length configs. \<exists>r. fst (checkWithRetry (exts i) (configs ! i)) = Inr r"
    by (elim conjE)
  from checks_resolved [OF this] obtain rs where
    rs: "length rs = length configs"
      "map (\<lambda>i. fst (checkWithRetry (exts i) (configs ! i))) [0..<length configs] = map Inr rs"
    by blast
  from j rs(1) have "Promise_all (map Inr rs) order = None"
    by (simp add: Promise_all_pending)
  moreover from j(1) have "configs \<noteq> []" by auto
  ultimately show "runProviderChecks exts localeCompare order configs = None"
    by (simp add: runProviderChecks_def rs(2))
next
  assume h: "\<exists>i\<in>set order. i < length configs \<and>
        (\<exists>t. fst (checkWithRetry (exts i) (configs ! i)) = Inl t)"
  let ?ps = "map (\<lambda>i. fst (checkWithRetry (exts i) (configs ! i))) [0..<length configs]"
  from h have "\<exists>i\<in>set order. i < length ?ps \<and> (\<exists>t. ?ps ! i = Inl t)" by auto
  from Promise_all_settle_rejected [OF this, of "replicate (length ?ps) None"]
  obtain t i where ti: "i < length ?ps" "?ps ! i = Inl t"
    "Promise_all ?ps order = Some (Inl t)"
    unfolding Promise_all_def by blast
  from ti(1) have ne: "length configs \<noteq> 0" by auto
  from ti(1,2) have "i < length configs \<and> fst (checkWithRetry (exts i) (configs ! i)) = Inl t"
    by simp
  moreover from ti(3) ne
  have "runProviderChecks exts localeCompare order configs = Some (Inl t)"
    by (simp add: runProviderChecks_def)
  ultimately show "\<exists>t i. i < length configs \<and>
      fst (checkWithRetry (exts i) (configs ! i)) = Inl t \<and>
      runProviderChecks exts localeCompare order configs = Some (Inl t)"
    by blast
next
  show "runProviderChecks (\<lambda>i. if i = 1 then rejecting_unprintable else always_operational)
     compare_ignoring_case [2, 0, 1] three_configs = Some (Inl cannot_convert)"
    by (rule run_rejected_example)
qed

lemma compare_ignoring_case_consistent:
  "\<forall>a b. (0 < compare_ignoring_case a b) = (compare_ignoring_case b a < 0)"
  "\<forall>a b c. compare_ignoring_case a b \<le> 0 \<and> compare_ignoring_case b c \<le> 0
      \<longrightarrow> compare_ignoring_case a c \<le> 0"
  by (auto simp: compare_ignoring_case_def split: if_splits)

lemma compare_examples:
  "compare_ignoring_case (js ''Alpha'') (js ''mu'') \<le> 0"
  "compare_ignoring_case (js ''mu'') (js ''Zeta'') \<le> 0"
  "compare_ignoring_case (js ''Alpha'') (js ''Zeta'') \<le> 0"
  "\<not> compare_ignoring_case (js ''Zeta'') (js ''Alpha'') \<le> 0"
  "\<not> compare_ignoring_case (js ''Zeta'') (js ''mu'') \<le> 0"
  "\<not> compare_ignoring_case (js ''mu'') (js ''Alpha'') \<le> 0"
  by (simp_all add: compare_ignoring_case_def js_def ascii_lower_def)

lemma three_checks_operational:
  "fst (checkWithRetry always_operational (three_configs ! 0))
     = Inr (operational_result (js ''Zeta''))"
  "fst (checkWithRetry always_operational (three_configs ! 1))
     = Inr (operational_result (js ''Alpha''))"
  "fst (checkWithRetry always_operational (three_configs ! 2))
     = Inr (operational_result (js ''mu''))"
  by (simp_all add: three_configs_def checkWithRetry_always_operational)

lemma three_checks_resolve:
  "\<forall>i<length three_configs.
     \<exists>r. fst (checkWithRetry always_operational (three_configs ! i)) = Inr r"
proof (intro allI impI)
  fix i assume "i < length three_configs"
  then have "i = 0 \<or> i = 1 \<or> i = 2" by (auto simp: three_configs_def)
  then show "\<exists>r. fst (checkWithRetry always_operational (three_configs ! i)) = Inr r"
    using three_checks_operational by auto
qed

lemma run_example:
  "runProviderChecks (\<lambda>i. always_operational) compare_ignoring_case [2, 0, 1] three_configs
     = Some (Inr [operational_result (js ''Alpha''), operational_result (js ''mu''),
                  operational_result (js ''Zeta'')])"
proof -
  have p: "map (\<lambda>i. fst (checkWithRetry always_operational (three_configs ! i))) [0, 1, 2]
             = [Inr (operational_result (js ''Zeta'')), Inr (operational_result (js ''Alpha'')),
                Inr (operational_result (js ''mu''))]"
    by (simp add: three_configs_def checkWithRetry_always_operational)
  have a: "Promise_all [Inr (operational_result (js ''Zeta'')),
              Inr (operational_result (js ''Alpha'')), Inr (operational_result (js ''mu''))]
              [2, 0, 1]
           = Some (Inr [operational_result (js ''Zeta''), operational_result (js ''Alpha''),
                operational_result (js ''mu'')])"
    by (simp add: Promise_all_def numeral_3_eq_3 numeral_2_eq_2)
  have n: "name (operational_result x) = x" for x by (simp add: operational_result_def)
  have s: "Array_sort (\<lambda>a b. compare_ignoring_case (name a) (name b))
             [operational_result (js ''Zeta''), operational_result (js ''Alpha''),
                operational_result (js ''mu'')]
           = [operational_result (js ''Alpha''), operational_result (js ''mu''),
                  operational_result (js ''Zeta'')]"
    by (simp add: Array_sort_def n compare_examples)
  have l: "length three_configs \<noteq> 0" by (simp add: three_configs_def)
  show ?thesis
    unfolding runProviderChecks_def three_configs_upt p a using l s by simp
qed

theorem runProviderChecks_sorted_by_name_witness:
  "set [2, 0, 1] = {0..<length three_configs} \<and>
   fst (checkWithRetry always_operational (three_configs ! 0))
     = Inr (operational_result (js ''Zeta'')) \<and>
   fst (checkWithRetry always_operational (three_configs ! 1))
     = Inr (operational_result (js ''Alpha'')) \<and>
   fst (checkWithRetry always_operational (three_configs ! 2))
     = Inr (operational_result (js ''mu'')) \<and>
   (\<exists>results.
      runProviderChecks (\<lambda>i. always_operational) compare_ignoring_case [2, 0, 1] three_configs
        = Some (Inr results) \<and>
      length results = 3 \<and>
      map name results = [js ''Alpha'', js ''mu'', js ''Zeta''] \<and>
      runProviderChecks (\<lambda>i. always_operational) compare_ignoring_case [0, 1, 2] three_configs
        = Some (Inr results)) \<and>
   1 < length three_configs \<and> 1 \<notin> set [2, 0 :: nat] \<and>
   runProviderChecks (\<lambda>i. always_operational) compare_ignoring_case [2, 0] three_configs
     = None \<and>
   1 \<in> set [2, 0, 1 :: nat] \<and>
   fst (checkWithRetry rejecting_unprintable (three_configs ! 1)) = Inl cannot_convert \<and>
   (\<exists>t i. i < length three_configs \<and>
      fst (checkWithRetry (if i = 1 then rejecting_unprintable else always_operational)
             (three_configs ! i)) = Inl t \<and>
      runProviderChecks (\<lambda>i. if i = 1 then rejecting_unprintable else always_operational)
        compare_ignoring_case [2, 0, 1] three_configs = Some (Inl t))"
proof -
  let ?ok = "\<lambda>i :: nat. always_operational"
  let ?bad = "\<lambda>i :: nat. if i = 1 then rejecting_unprintable else always_operational"
  have o: "set [2, 0, 1] = {0..<length three_configs}"
    by (auto simp: three_configs_def)
  have l1: "1 < length three_configs" by (simp add: three_configs_def)
  have prem: "(\<forall>a b. (0 < compare_ignoring_case a b) = (compare_ignoring_case b a < 0)) \<and>
    (\<forall>a b c. compare_ignoring_case a b \<le> 0 \<and> compare_ignoring_case b c \<le> 0
       \<longrightarrow> compare_ignoring_case a c \<le> 0) \<and>
    (\<forall>i<length three_configs.
       \<exists>r. fst (checkWithRetry always_operational (three_configs ! i)) = Inr r) \<and>
    set [2, 0, 1] = {0..<length three_configs}"
    using compare_ignoring_case_consistent three_checks_resolve o by (intro conjI)
  note t = runProviderChecks_sorted_by_name
      [where localeCompare = compare_ignoring_case and order = "[2, 0, 1]"
         and configs = three_configs and exts = ?ok,
       THEN conjunct1, THEN mp, OF prem]
  have sorted: "\<exists>results.
      runProviderChecks ?ok compare_ignoring_case [2, 0, 1] three_configs
        = Some (Inr results) \<and>
      length results = 3 \<and>
      map name results = [js ''Alpha'', js ''mu'', js ''Zeta''] \<and>
      runProviderChecks ?ok compare_ignoring_case [0, 1, 2] three_configs
        = Some (Inr results)"
    using t
  proof (elim exE conjE)
    fix results rs
    assume r: "runProviderChecks ?ok compare_ignoring_case [2, 0, 1]
                 three_configs = Some (Inr results)"
      and l: "length results = length three_configs"
      and c: "runProviderChecks ?ok compare_ignoring_case
                 [0..<length three_configs] three_configs = Some (Inr results)"
    from r [unfolded run_example]
    have e: "results = [operational_result (js ''Alpha''), operational_result (js ''mu''),
                  operational_result (js ''Zeta'')]"
      by simp
    then have n: "map name results = [js ''Alpha'', js ''mu'', js ''Zeta'']"
      by (simp add: operational_result_def)
    from l have l3: "length results = 3" by (simp add: three_configs_def)
    from c have c': "runProviderChecks ?ok compare_ignoring_case
                 [0, 1, 2] three_configs = Some (Inr results)"
      by (simp only: three_configs_upt)
    from r l3 n c' show ?thesis by (intro conjI exI [of _ results])
  qed
  have n1: "1 \<notin> set [2, 0 :: nat]" by simp
  have prem3: "(\<forall>i<length three_configs.
       \<exists>r. fst (checkWithRetry always_operational (three_configs ! i)) = Inr r) \<and>
    (\<exists>i<length three_configs. i \<notin> set [2, 0])"
    using three_checks_resolve l1 n1 by blast
  note pending = runProviderChecks_sorted_by_name
      [where localeCompare = compare_ignoring_case and order = "[2, 0]"
         and configs = three_configs and exts = ?ok,
       THEN conjunct2, THEN conjunct2, THEN conjunct1, THEN mp, OF prem3]
  have bad1: "fst (checkWithRetry rejecting_unprintable (three_configs ! 1))
                = Inl cannot_convert"
    by (simp add: unprintable_run)
  have m1: "1 \<in> set [2, 0, 1 :: nat]" by simp
  have prem4: "\<exists>i\<in>set [2, 0, 1]. i < length three_configs \<and>
        (\<exists>t. fst (checkWithRetry (?bad i) (three_configs ! i)) = Inl t)"
    using l1 bad1 by (intro bexI [of _ 1]) simp_all
  note rejected = runProviderChecks_sorted_by_name
      [where localeCompare = compare_ignoring_case and order = "[2, 0, 1]"
         and configs = three_configs and exts = ?bad,
       THEN conjunct2, THEN conjunct2, THEN conjunct2, THEN conjunct1, THEN mp, OF prem4]
  from o three_checks_operational sorted l1 n1 pending m1 bad1 rejected
  show ?thesis by (intro conjI)
qed

end
